theory Spec2Isabelle
  imports Complex_Main "HOL-Library.Word"
begin

section \<open>The k-sparse autoencoder of \<^verbatim>\<open>sparse_autoencoder.py\<close>\<close>

text \<open>
  The repository ships the autoencoder as the compiled module \<^verbatim>\<open>sparse_autoencoder.py\<close>
  (class \<^verbatim>\<open>FastAutoencoder\<close>, functions \<^verbatim>\<open>load_sae_model\<close> and \<^verbatim>\<open>unit_norm_decoder_\<close>),
  stored after the text of \<^verbatim>\<open>scripts.js\<close>. The definitions below follow its instruction
  stream function by function; constants are the ones of its constant tables.

  Numbers: tensor entries are modelled as real numbers (the float32 rounding of torch is
  not modelled); the staleness counters are the int64 buffer \<^verbatim>\<open>stats_last_nonzero\<close> and are
  modelled as 64-bit words, so that \<^verbatim>\<open>+= 1\<close> wraps as it does in torch. A call that
  raises in Python returns \<open>None\<close> here.

  Shapes: a 1-D tensor is a list, a 2-D tensor (a batch, a weight matrix) is a list of rows.
  \<^verbatim>\<open>nn.Linear(i, o, bias=False)\<close> stores its weight as \<open>o\<close> rows of length \<open>i\<close> and maps
  \<open>x\<close> to \<open>W x\<close>.
\<close>

type_synonym vec = "real list"
type_synonym mat = "real list list"

record FastAutoencoder =
  n_dirs :: nat
  d_model :: nat
  k :: int
  auxk :: "int option"
  multik :: "int option"
  dead_steps_threshold :: int
  encoder :: mat
  decoder :: mat
  pre_bias :: vec
  latent_bias :: vec
  stats_last_nonzero :: "64 word list"

text \<open>
  The shapes that \<^verbatim>\<open>__init__\<close> creates and that \<^verbatim>\<open>load_state_dict\<close> checks before it
  copies: \<^verbatim>\<open>encoder = nn.Linear(d_model, n_dirs)\<close>, \<^verbatim>\<open>decoder = nn.Linear(n_dirs, d_model)\<close>,
  \<^verbatim>\<open>pre_bias = zeros(d_model)\<close>, \<^verbatim>\<open>latent_bias = zeros(n_dirs)\<close>,
  \<^verbatim>\<open>stats_last_nonzero = zeros(n_dirs, dtype=long)\<close>.
\<close>

definition shapes_ok :: "FastAutoencoder \<Rightarrow> bool" where
  "shapes_ok m \<longleftrightarrow>
     length (encoder m) = n_dirs m \<and> list_all (\<lambda>r. length r = d_model m) (encoder m) \<and>
     length (decoder m) = d_model m \<and> list_all (\<lambda>r. length r = n_dirs m) (decoder m) \<and>
     length (pre_bias m) = d_model m \<and> length (latent_bias m) = n_dirs m \<and>
     length (stats_last_nonzero m) = n_dirs m"

subsection \<open>Tensor primitives\<close>

definition relu :: "real \<Rightarrow> real" where
  "relu v = max 0 v"

definition dot :: "vec \<Rightarrow> vec \<Rightarrow> real" where
  "dot a b = sum_list (map2 (*) a b)"

definition linear_layer :: "mat \<Rightarrow> vec \<Rightarrow> vec" where
  "linear_layer W x = map (\<lambda>row. dot row x) W"

text \<open>
  Elementwise arithmetic of two 1-D tensors with torch's broadcasting: equal lengths, or
  one operand of length one; any other pair of shapes raises.
\<close>

definition broadcast :: "(real \<Rightarrow> real \<Rightarrow> real) \<Rightarrow> vec \<Rightarrow> vec \<Rightarrow> vec option" where
  "broadcast f a b =
     (if length a = length b then Some (map2 f a b)
      else if length a = 1 then Some (map (f (hd a)) b)
      else if length b = 1 then Some (map (\<lambda>x. f x (hd b)) a)
      else None)"

text \<open>A batched operation is applied to every row and raises when one row raises.\<close>

fun each_row :: "('a \<Rightarrow> 'b option) \<Rightarrow> 'a list \<Rightarrow> 'b list option" where
  "each_row f [] = Some []"
| "each_row f (x # xs) =
     (case f x of None \<Rightarrow> None
      | Some y \<Rightarrow> (case each_row f xs of None \<Rightarrow> None | Some ys \<Rightarrow> Some (y # ys)))"

text \<open>
  \<^verbatim>\<open>torch.topk(row, k, dim=-1)\<close>: the \<open>k\<close> largest entries in descending order with their
  positions; it raises unless \<open>0 \<le> k \<le> len(row)\<close>. torch leaves the order of equal
  entries open; the model takes the lower position first.
\<close>

definition topk_sel :: "vec \<Rightarrow> nat \<Rightarrow> (nat \<times> real) list" where
  "topk_sel xs n = take n (sort_key (\<lambda>p. - snd p) (enumerate 0 xs))"

definition topk :: "vec \<Rightarrow> int \<Rightarrow> (vec \<times> nat list) option" where
  "topk xs kk =
     (if kk < 0 \<or> int (length xs) < kk then None
      else Some (map snd (topk_sel xs (nat kk)), map fst (topk_sel xs (nat kk))))"

text \<open>
  \<^verbatim>\<open>t.scatter_(-1, index, src)\<close> on a 1-D tensor: \<open>t[index[p]] = src[p]\<close> for every position
  \<open>p\<close> of \<open>index\<close>, in order (for a repeated index torch leaves the winner open; the
  model takes the last); it raises when \<open>index\<close> is longer than \<open>src\<close> or an index is
  outside \<open>t\<close>.
\<close>

fun scatter :: "'a list \<Rightarrow> nat list \<Rightarrow> 'a list \<Rightarrow> 'a list option" where
  "scatter t [] src = Some t"
| "scatter t (i # idx) [] = None"
| "scatter t (i # idx) (v # src) =
     (if i < length t then scatter (t[i := v]) idx src else None)"

text \<open>
  The sequence \<^verbatim>\<open>topk\<close>, \<^verbatim>\<open>F.relu\<close> of the values, \<^verbatim>\<open>zeros_like\<close>, \<^verbatim>\<open>scatter_\<close> that
  \<^verbatim>\<open>forward\<close>, \<^verbatim>\<open>decode_clamp\<close> and \<^verbatim>\<open>decode_at_k\<close> share; it yields the clamped values,
  the indices and the scattered dense vector.
\<close>

definition sparsify :: "vec \<Rightarrow> int \<Rightarrow> (vec \<times> nat list \<times> vec) option" where
  "sparsify row kk =
     (case topk row kk of None \<Rightarrow> None
      | Some (vals, idx) \<Rightarrow>
          (case scatter (replicate (length row) 0) idx (map relu vals) of None \<Rightarrow> None
           | Some lat \<Rightarrow> Some (map relu vals, idx, lat)))"

subsection \<open>Encoder and decoder\<close>

text \<open>
  \<^verbatim>\<open>x = x - self.pre_bias; latents_pre_act = self.encoder(x) + self.latent_bias\<close> for one
  row. The linear layer raises unless the centred row has \<^verbatim>\<open>d_model\<close> entries.
\<close>

definition pre_act_row :: "FastAutoencoder \<Rightarrow> vec \<Rightarrow> vec option" where
  "pre_act_row m x =
     (case broadcast (-) x (pre_bias m) of None \<Rightarrow> None
      | Some xc \<Rightarrow>
          if length xc = d_model m
          then broadcast (+) (linear_layer (encoder m) xc) (latent_bias m) else None)"

text \<open>\<^verbatim>\<open>self.decoder(latents) + self.pre_bias\<close> for one row.\<close>

definition decode_dense :: "FastAutoencoder \<Rightarrow> vec \<Rightarrow> vec option" where
  "decode_dense m lat =
     (if length lat = n_dirs m
      then broadcast (+) (linear_layer (decoder m) lat) (pre_bias m) else None)"

subsection \<open>\<^verbatim>\<open>FastAutoencoder.forward\<close>\<close>

record forward_info =
  topk_indices :: "nat list list"
  topk_values :: "vec list"
  multik_recons :: "vec list option"
  auxk_indices :: "nat list list option"
  auxk_values :: "vec list option"
  latents_pre_act :: "vec list"
  latents_post_act :: "vec list"

text \<open>
  \<^verbatim>\<open>self.stats_last_nonzero += 1\<close>, then
  \<^verbatim>\<open>unique_indices = topk_indices.unique()\<close> and, when that is not empty,
  \<^verbatim>\<open>self.stats_last_nonzero.scatter_(0, unique_indices, 0)\<close>.
\<close>

definition update_stats :: "64 word list \<Rightarrow> nat list list \<Rightarrow> 64 word list" where
  "update_stats st idx =
     (let st1 = map (\<lambda>s. s + 1) st;
          unique_indices = sort (remdups (concat idx))
      in if 0 < length unique_indices
         then fold (\<lambda>i t. t[i := 0]) unique_indices st1 else st1)"

text \<open>
  The multi-k branch: taken when \<^verbatim>\<open>self.multik\<close> is truthy; it selects
  \<^verbatim>\<open>min(4 * self.k, latents_pre_act.shape[-1])\<close> entries per row. The result is \<open>None\<close>
  when a call raises, \<open>Some None\<close> for \<^verbatim>\<open>multik_latents = None\<close>.
\<close>

definition multik_latents :: "FastAutoencoder \<Rightarrow> vec list \<Rightarrow> vec list option option" where
  "multik_latents m pre =
     (if multik m \<noteq> None \<and> multik m \<noteq> Some 0
      then (case each_row (\<lambda>row. sparsify row (min (4 * k m) (int (n_dirs m)))) pre of
              None \<Rightarrow> None
            | Some r \<Rightarrow> Some (Some (map (\<lambda>(vals, idx, lat). lat) r)))
      else Some None)"

text \<open>
  The auxiliary branch, taken when \<^verbatim>\<open>self.auxk is not None\<close>:
  \<^verbatim>\<open>dead_mask = (self.stats_last_nonzero > self.dead_steps_threshold).float()\<close> on the
  counters as this call has just updated them,
  \<^verbatim>\<open>dead_latents_pre_act = latents_pre_act * dead_mask\<close>, then \<^verbatim>\<open>topk\<close> with
  \<^verbatim>\<open>k = min(self.auxk, shape[-1])\<close> and \<^verbatim>\<open>F.relu\<close>. The threshold is a Python integer
  compared with int64 counters.
\<close>

definition dead :: "FastAutoencoder \<Rightarrow> nat \<Rightarrow> bool" where
  "dead m j \<longleftrightarrow> dead_steps_threshold m < sint (stats_last_nonzero m ! j)"

definition dead_mask :: "FastAutoencoder \<Rightarrow> vec" where
  "dead_mask m =
     map (\<lambda>s. if dead_steps_threshold m < sint s then 1 else 0) (stats_last_nonzero m)"

definition auxk_row :: "FastAutoencoder \<Rightarrow> int \<Rightarrow> vec \<Rightarrow> (vec \<times> nat list) option" where
  "auxk_row m a row =
     (case broadcast (*) row (dead_mask m) of None \<Rightarrow> None
      | Some dead_latents_pre_act \<Rightarrow>
          (case topk dead_latents_pre_act (min a (int (length dead_latents_pre_act))) of
             None \<Rightarrow> None
           | Some (vals, idx) \<Rightarrow> Some (map relu vals, idx)))"

definition auxk_code ::
  "FastAutoencoder \<Rightarrow> vec list \<Rightarrow> (vec list option \<times> nat list list option) option" where
  "auxk_code m pre =
     (case auxk m of None \<Rightarrow> Some (None, None)
      | Some a \<Rightarrow>
          (case each_row (auxk_row m a) pre of None \<Rightarrow> None
           | Some r \<Rightarrow> Some (Some (map fst r), Some (map snd r))))"

text \<open>
  The primary selection of a batch: one \<^verbatim>\<open>torch.topk(latents_pre_act, k=self.k, dim=-1)\<close>
  call, whose argument check is against the width \<^verbatim>\<open>n_dirs\<close> of \<^verbatim>\<open>latents_pre_act\<close> even
  for a batch without rows.
\<close>

definition primary_code :: "FastAutoencoder \<Rightarrow> vec list \<Rightarrow> (vec \<times> nat list \<times> vec) list option" where
  "primary_code m pre =
     (if k m < 0 \<or> int (n_dirs m) < k m then None
      else each_row (\<lambda>row. sparsify row (k m)) pre)"

text \<open>
  The forward pass over a batch \<open>x\<close> (a 1-D input is the batch of one row). It returns the
  model with its updated counters and, unless a call raised, the reconstruction and the
  dictionary of outputs. The counters are updated before the decoder and the auxiliary
  branch run, so an exception there leaves them updated.
\<close>

definition forward ::
  "FastAutoencoder \<Rightarrow> vec list \<Rightarrow> FastAutoencoder \<times> (vec list \<times> forward_info) option" where
  "forward m x =
     (case each_row (pre_act_row m) x of None \<Rightarrow> (m, None)
      | Some pre \<Rightarrow>
     (case primary_code m pre of None \<Rightarrow> (m, None)
      | Some prim \<Rightarrow>
     (case multik_latents m pre of None \<Rightarrow> (m, None)
      | Some mlat \<Rightarrow>
        let idx = map (\<lambda>(vals, idx, lat). idx) prim;
            vals = map (\<lambda>(vals, idx, lat). vals) prim;
            latents = map (\<lambda>(vals, idx, lat). lat) prim;
            m' = m\<lparr>stats_last_nonzero := update_stats (stats_last_nonzero m) idx\<rparr>
        in (m',
            (case each_row (decode_dense m') latents of None \<Rightarrow> None
             | Some recons \<Rightarrow>
            (case (case mlat of None \<Rightarrow> Some None
                   | Some ml \<Rightarrow> map_option Some (each_row (decode_dense m') ml)) of
               None \<Rightarrow> None
             | Some mrecons \<Rightarrow>
            (case auxk_code m' pre of None \<Rightarrow> None
             | Some (avals, aidx) \<Rightarrow>
                 Some (recons,
                       \<lparr>topk_indices = idx, topk_values = vals, multik_recons = mrecons,
                        auxk_indices = aidx, auxk_values = avals,
                        latents_pre_act = pre, latents_post_act = latents\<rparr>))))))))"

subsection \<open>The decode entry points\<close>

text \<open>
  \<^verbatim>\<open>decode_sparse(indices, values)\<close>:
  \<^verbatim>\<open>latents = torch.zeros(self.n_dirs); latents.scatter_(-1, indices, values)\<close>, then the
  decoder and the bias.
\<close>

definition decode_sparse :: "FastAutoencoder \<Rightarrow> nat list \<Rightarrow> vec \<Rightarrow> vec option" where
  "decode_sparse m indices values =
     (case scatter (replicate (n_dirs m) 0) indices values of None \<Rightarrow> None
      | Some latents \<Rightarrow> decode_dense m latents)"

text \<open>
  \<^verbatim>\<open>decode_clamp(latents, clamp)\<close>: the selection is
  \<^verbatim>\<open>torch.topk(latents, k=min(64, latents.shape[-1]), dim=-1)\<close> with the constant 64; the
  argument \<^verbatim>\<open>clamp\<close> (a Python number, or an array that is turned into a float tensor) is
  used once, in \<^verbatim>\<open>latents = latents * clamp\<close> after the scatter.
\<close>

datatype clamp_arg = Scalar real | Tensor vec

definition times_clamp :: "vec \<Rightarrow> clamp_arg \<Rightarrow> vec option" where
  "times_clamp lat clamp =
     (case clamp of Scalar c \<Rightarrow> Some (map (\<lambda>v. v * c) lat)
      | Tensor c \<Rightarrow> broadcast (*) lat c)"

definition decode_clamp :: "FastAutoencoder \<Rightarrow> vec \<Rightarrow> clamp_arg \<Rightarrow> vec option" where
  "decode_clamp m latents clamp =
     (case sparsify latents (min 64 (int (length latents))) of None \<Rightarrow> None
      | Some (vals, idx, lat) \<Rightarrow>
          (case times_clamp lat clamp of None \<Rightarrow> None
           | Some lat' \<Rightarrow> decode_dense m lat'))"

text \<open>\<^verbatim>\<open>decode_at_k(latents, k)\<close>: the same with \<^verbatim>\<open>k=min(k, latents.shape[-1])\<close> and no product.\<close>

definition decode_at_k :: "FastAutoencoder \<Rightarrow> vec \<Rightarrow> int \<Rightarrow> vec option" where
  "decode_at_k m latents kk =
     (case sparsify latents (min kk (int (length latents))) of None \<Rightarrow> None
      | Some (vals, idx, lat) \<Rightarrow> decode_dense m lat)"

text \<open>
  The reading of \<^verbatim>\<open>decode_clamp\<close> in the specification, for comparison with the code: the
  caller's clamp width is the sparsity budget.
\<close>

definition spec_decode_clamp :: "FastAutoencoder \<Rightarrow> vec \<Rightarrow> int \<Rightarrow> vec option" where
  "spec_decode_clamp m dense_vector clamp_width =
     (case sparsify dense_vector (min clamp_width (int (n_dirs m))) of None \<Rightarrow> None
      | Some (vals, idx, lat) \<Rightarrow> decode_dense m lat)"

subsection \<open>\<^verbatim>\<open>compute_activations\<close> and \<^verbatim>\<open>get_topk_activations\<close>\<close>

text \<open>
  \<^verbatim>\<open>range(0, n, step)\<close> for a positive step, and \<^verbatim>\<open>np.vstack\<close>, which raises on an empty
  list of arrays.
\<close>

definition py_range :: "nat \<Rightarrow> nat \<Rightarrow> nat list" where
  "py_range n step = map (\<lambda>j. j * step) [0..<(n + step - 1) div step]"

definition vstack :: "'a list list \<Rightarrow> 'a list option" where
  "vstack chunks = (if chunks = [] then None else Some (concat chunks))"

text \<open>The body of the loop: centre, encode, add the bias, \<^verbatim>\<open>F.relu\<close>, for one chunk.\<close>

definition activations_row :: "FastAutoencoder \<Rightarrow> vec \<Rightarrow> vec option" where
  "activations_row m x = map_option (map relu) (pre_act_row m x)"

definition activations_chunk :: "FastAutoencoder \<Rightarrow> vec list \<Rightarrow> vec list option" where
  "activations_chunk m batch = each_row (activations_row m) batch"

text \<open>
  \<^verbatim>\<open>for i in range(0, num_samples, batch_size): batch = x[i:i+batch_size] ...\<close> and
  \<^verbatim>\<open>np.vstack(all_activations)\<close>. A step of zero makes \<^verbatim>\<open>range\<close> raise; a negative step
  gives no chunk, and \<^verbatim>\<open>np.vstack\<close> raises.
\<close>

definition compute_activations :: "FastAutoencoder \<Rightarrow> vec list \<Rightarrow> int \<Rightarrow> vec list option" where
  "compute_activations m x batch_size =
     (if batch_size = 0 then None
      else if batch_size < 0 then vstack []
      else (case each_row (\<lambda>i. activations_chunk m (take (nat batch_size) (drop i x)))
                   (py_range (length x) (nat batch_size)) of
              None \<Rightarrow> None
            | Some all_activations \<Rightarrow> vstack all_activations))"

text \<open>
  \<^verbatim>\<open>np.argsort\<close> (ascending; equal entries in the order of their positions), the slice
  \<^verbatim>\<open>a[-k:]\<close> of Python (for \<open>k = 0\<close> it is the whole array, for a negative \<open>k\<close> it drops
  \<open>-k\<close> entries), and the column \<^verbatim>\<open>all_activations[:, neuron_idx]\<close>.
\<close>

definition argsort :: "vec \<Rightarrow> nat list" where
  "argsort xs = map fst (sort_key snd (enumerate 0 xs))"

definition slice_from_minus :: "'a list \<Rightarrow> int \<Rightarrow> 'a list" where
  "slice_from_minus a kk =
     (if 0 < kk then drop (length a - nat kk) a else drop (nat (- kk)) a)"

definition column :: "vec list \<Rightarrow> nat \<Rightarrow> vec option" where
  "column a j = (if list_all (\<lambda>row. j < length row) a then Some (map (\<lambda>row. row ! j) a) else None)"

definition neuron_topk :: "FastAutoencoder \<Rightarrow> vec list \<Rightarrow> nat \<Rightarrow> (nat list \<times> vec) option" where
  "neuron_topk m all_activations neuron_idx =
     (case column all_activations neuron_idx of None \<Rightarrow> None
      | Some neuron_activations \<Rightarrow>
          let kk = min (k m) (int (length neuron_activations));
              indices = rev (slice_from_minus (argsort neuron_activations) kk);
              values = map (\<lambda>i. neuron_activations ! i) indices
          in Some (indices, values))"

definition get_topk_activations ::
  "FastAutoencoder \<Rightarrow> vec list \<Rightarrow> int \<Rightarrow> (nat list list \<times> vec list) option" where
  "get_topk_activations m x batch_size =
     (case compute_activations m x batch_size of None \<Rightarrow> None
      | Some all_activations \<Rightarrow>
          (case each_row (neuron_topk m all_activations) [0..<n_dirs m] of None \<Rightarrow> None
           | Some r \<Rightarrow> Some (map fst r, map snd r)))"

subsection \<open>\<^verbatim>\<open>unit_norm_decoder_\<close>\<close>

text \<open>
  \<^verbatim>\<open>decoder.weight.div_(decoder.weight.norm(dim=0, keepdim=True))\<close>. The weight has
  \<^verbatim>\<open>d_model\<close> rows and \<^verbatim>\<open>n_dirs\<close> columns; the norm over dimension 0 is one Euclidean norm
  per column, and every entry is divided by the norm of its column. A division by a zero
  norm gives a value that is not a finite number (\<open>None\<close>).
\<close>

definition column_norm :: "mat \<Rightarrow> nat \<Rightarrow> real" where
  "column_norm W j = sqrt (sum_list (map (\<lambda>row. (row ! j)\<^sup>2) W))"

definition fdiv :: "real \<Rightarrow> real \<Rightarrow> real option" where
  "fdiv x y = (if y = 0 then None else Some (x / y))"

definition unit_norm_weight :: "mat \<Rightarrow> real option list list" where
  "unit_norm_weight W = map (\<lambda>row. map (\<lambda>(j, x). fdiv x (column_norm W j)) (enumerate 0 row)) W"

text \<open>The Euclidean norm of a column of the divided weight; not a number when an entry is not.\<close>

definition column_norm_opt :: "real option list list \<Rightarrow> nat \<Rightarrow> real option" where
  "column_norm_opt W j =
     (if list_all (\<lambda>row. row ! j \<noteq> None) W
      then Some (sqrt (sum_list (map (\<lambda>row. (the (row ! j))\<^sup>2) W))) else None)"

text \<open>
  The update in place: the result is the model with the divided weight, or \<open>None\<close> when
  the divided weight holds an entry that is not a finite number.
\<close>

definition unit_norm_decoder :: "FastAutoencoder \<Rightarrow> FastAutoencoder option" where
  "unit_norm_decoder m =
     (let W = unit_norm_weight (decoder m)
      in if list_all (list_all (\<lambda>e. e \<noteq> None)) W
         then Some (m\<lparr>decoder := map (map the) W\<rparr>) else None)"

subsection \<open>\<^verbatim>\<open>load_sae_model\<close>\<close>

text \<open>
  The loader calls into torch: \<^verbatim>\<open>nn.Linear\<close> draws initial weights, \<^verbatim>\<open>torch.load\<close> reads
  the file, \<^verbatim>\<open>load_state_dict\<close> copies the stored tensors into the model. These three are
  the environment of the function. An exception carries its message.
\<close>

datatype tensor = Float1 vec | Float2 mat | Long1 "64 word list"

type_synonym state_dict = "(string \<times> tensor) list"

datatype exn = FileNotFoundError string | UnpicklingError string | RuntimeError string

fun str :: "exn \<Rightarrow> string" where
  "str (FileNotFoundError s) = s"
| "str (UnpicklingError s) = s"
| "str (RuntimeError s) = s"

record torch_env =
  linear_init :: "nat \<Rightarrow> nat \<Rightarrow> mat"
  torch_load :: "string \<Rightarrow> exn + state_dict"
  load_state_dict :: "FastAutoencoder \<Rightarrow> state_dict \<Rightarrow> exn + FastAutoencoder"

text \<open>
  \<^verbatim>\<open>FastAutoencoder.__init__(n_dirs, d_model, k, auxk=None, multik=128,
  dead_steps_threshold=266)\<close>. torch raises for a negative dimension.
\<close>

definition FastAutoencoder_init ::
  "torch_env \<Rightarrow> int \<Rightarrow> int \<Rightarrow> int \<Rightarrow> int option \<Rightarrow> int option \<Rightarrow> int \<Rightarrow> exn + FastAutoencoder" where
  "FastAutoencoder_init env nd dm kk ak mk thr =
     (if nd < 0 \<or> dm < 0 then Inl (RuntimeError ''negative dimension'')
      else Inr \<lparr>n_dirs = nat nd, d_model = nat dm, k = kk, auxk = ak, multik = mk,
                dead_steps_threshold = thr,
                encoder = linear_init env (nat dm) (nat nd),
                decoder = linear_init env (nat nd) (nat dm),
                pre_bias = replicate (nat dm) 0, latent_bias = replicate (nat nd) 0,
                stats_last_nonzero = replicate (nat nd) 0\<rparr>)"

text \<open>
  \<^verbatim>\<open>load_sae_model(model_path, n_neurons, n_input_features, k, auxk)\<close>: the whole body is
  inside \<^verbatim>\<open>try\<close>; \<^verbatim>\<open>except Exception as e\<close> prints and returns \<^verbatim>\<open>None\<close>. The result is
  the list of printed lines and the returned value.
\<close>

definition load_sae_model ::
  "torch_env \<Rightarrow> string \<Rightarrow> int \<Rightarrow> int \<Rightarrow> int \<Rightarrow> int option \<Rightarrow>
   string list \<times> FastAutoencoder option" where
  "load_sae_model env model_path n_neurons n_input_features kk ak =
     (case (case FastAutoencoder_init env n_neurons n_input_features kk ak (Some 128) 266 of
              Inl e \<Rightarrow> Inl e
            | Inr model \<Rightarrow>
                (case torch_load env model_path of Inl e \<Rightarrow> Inl e
                 | Inr sd \<Rightarrow> load_state_dict env model sd)) of
        Inr model \<Rightarrow> ([''Successfully loaded SAE model from '' @ model_path], Some model)
      | Inl e \<Rightarrow> ([''Error loading SAE model: '' @ str e], None))"

text \<open>
  torch's strict \<^verbatim>\<open>load_state_dict\<close> for tensors of the model's own dtypes: it raises when
  a key is missing or unexpected, or when a stored shape differs from the shape of the
  parameter; otherwise it copies every tensor.
\<close>

definition shape_is :: "mat \<Rightarrow> nat \<Rightarrow> nat \<Rightarrow> bool" where
  "shape_is W rows cols \<longleftrightarrow> length W = rows \<and> list_all (\<lambda>r. length r = cols) W"

fun float1 :: "tensor option \<Rightarrow> vec option" where
  "float1 (Some (Float1 v)) = Some v"
| "float1 _ = None"

fun float2 :: "tensor option \<Rightarrow> mat option" where
  "float2 (Some (Float2 w)) = Some w"
| "float2 _ = None"

fun long1 :: "tensor option \<Rightarrow> 64 word list option" where
  "long1 (Some (Long1 v)) = Some v"
| "long1 _ = None"

definition keys_match :: "state_dict \<Rightarrow> bool" where
  "keys_match sd \<longleftrightarrow>
     distinct (map fst sd) \<and>
     set (map fst sd) =
       {''pre_bias'', ''latent_bias'', ''stats_last_nonzero'', ''encoder.weight'', ''decoder.weight''}"

definition strict_load_state_dict :: "FastAutoencoder \<Rightarrow> state_dict \<Rightarrow> exn + FastAutoencoder" where
  "strict_load_state_dict model sd =
     (if \<not> keys_match sd then Inl (RuntimeError ''Missing or unexpected key(s) in state_dict'')
      else
     (case float1 (map_of sd ''pre_bias'') of None \<Rightarrow> Inl (RuntimeError ''size mismatch'')
      | Some pb \<Rightarrow>
     (case float1 (map_of sd ''latent_bias'') of None \<Rightarrow> Inl (RuntimeError ''size mismatch'')
      | Some lb \<Rightarrow>
     (case long1 (map_of sd ''stats_last_nonzero'') of None \<Rightarrow> Inl (RuntimeError ''size mismatch'')
      | Some st \<Rightarrow>
     (case float2 (map_of sd ''encoder.weight'') of None \<Rightarrow> Inl (RuntimeError ''size mismatch'')
      | Some ew \<Rightarrow>
     (case float2 (map_of sd ''decoder.weight'') of None \<Rightarrow> Inl (RuntimeError ''size mismatch'')
      | Some dw \<Rightarrow>
          if length pb = d_model model \<and> length lb = n_dirs model \<and>
             length st = n_dirs model \<and> shape_is ew (n_dirs model) (d_model model) \<and>
             shape_is dw (d_model model) (n_dirs model)
          then Inr (model\<lparr>encoder := ew, decoder := dw, pre_bias := pb, latent_bias := lb,
                           stats_last_nonzero := st\<rparr>)
          else Inl (RuntimeError ''size mismatch'')))))))"

subsection \<open>Example models\<close>

definition scenario_model :: FastAutoencoder where
  "scenario_model =
     \<lparr>n_dirs = 3, d_model = 4, k = 2, auxk = None, multik = None, dead_steps_threshold = 266,
      encoder = [[1, 0, 0, 0], [0, 1, 0, 0], [0, 0, 1, 0]],
      decoder = [[1, 0, 0], [0, 1, 0], [0, 0, 1], [0, 0, 0]],
      pre_bias = [0, 0, 0, 0], latent_bias = [0, 0, 0], stats_last_nonzero = [5, 5, 5]\<rparr>"

definition scenario_input :: "vec list" where
  "scenario_input = [[1 / 10, 9 / 10, - (3 / 10), 0]]"

definition aux_model :: FastAutoencoder where
  "aux_model =
     \<lparr>n_dirs = 2, d_model = 1, k = 1, auxk = Some 1, multik = Some 128, dead_steps_threshold = 266,
      encoder = [[1], [2]], decoder = [[1, 0]],
      pre_bias = [0], latent_bias = [0, 0], stats_last_nonzero = [0, 0]\<rparr>"

definition id_model :: FastAutoencoder where
  "id_model =
     \<lparr>n_dirs = 2, d_model = 2, k = 1, auxk = None, multik = None, dead_steps_threshold = 266,
      encoder = [[1, 0], [0, 1]], decoder = [[1, 0], [0, 1]],
      pre_bias = [0, 0], latent_bias = [0, 0], stats_last_nonzero = [0, 0]\<rparr>"

definition k0_model :: FastAutoencoder where
  "k0_model =
     \<lparr>n_dirs = 2, d_model = 2, k = 0, auxk = None, multik = None, dead_steps_threshold = 266,
      encoder = [[1, 0], [0, 1]], decoder = [[1, 0], [0, 1]],
      pre_bias = [0, 0], latent_bias = [0, 0], stats_last_nonzero = [0, 0]\<rparr>"

definition zero_column_model :: FastAutoencoder where
  "zero_column_model =
     \<lparr>n_dirs = 2, d_model = 2, k = 1, auxk = None, multik = None, dead_steps_threshold = 266,
      encoder = [[1, 0], [0, 1]], decoder = [[0, 3], [0, 4]],
      pre_bias = [0, 0], latent_bias = [0, 0], stats_last_nonzero = [0, 0]\<rparr>"

definition blob8 :: state_dict where
  "blob8 =
     [(''pre_bias'', Float1 (replicate 8 0)), (''latent_bias'', Float1 [0, 0]),
      (''stats_last_nonzero'', Long1 [0, 0]),
      (''encoder.weight'', Float2 [replicate 8 1, replicate 8 1]),
      (''decoder.weight'', Float2 (replicate 8 [1, 1]))]"

definition example_env :: torch_env where
  "example_env =
     \<lparr>linear_init = (\<lambda>inp out. replicate out (replicate inp 0)),
      torch_load = (\<lambda>path. if path = ''sae.pt'' then Inr blob8
                            else Inl (FileNotFoundError ''No such file or directory'')),
      load_state_dict = strict_load_state_dict\<rparr>"

section \<open>Auxiliary facts\<close>

subsection \<open>Rows, selection and scatter\<close>

lemma each_row_iff: "each_row f xs = Some ys \<longleftrightarrow> list_all2 (\<lambda>x y. f x = Some y) xs ys"
proof (induction xs arbitrary: ys)
  case Nil
  then show ?case by auto
next
  case (Cons x xs)
  show ?case
  proof (cases ys)
    case Nil
    then show ?thesis by (simp split: option.splits)
  next
    case (Cons y ys')
    then show ?thesis using Cons.IH[of ys'] by (auto split: option.splits)
  qed
qed

lemma each_row_total:
  "(\<And>x. x \<in> set xs \<Longrightarrow> f x = Some (g x)) \<Longrightarrow> each_row f xs = Some (map g xs)"
  by (induction xs) auto

lemma each_row_length: "each_row f xs = Some ys \<Longrightarrow> length ys = length xs"
  by (simp add: each_row_iff list_all2_lengthD)

lemma each_row_nth: "each_row f xs = Some ys \<Longrightarrow> i < length xs \<Longrightarrow> f (xs ! i) = Some (ys ! i)"
  unfolding each_row_iff by (rule list_all2_nthD)

lemma each_row_set: "each_row f xs = Some ys \<Longrightarrow> y \<in> set ys \<Longrightarrow> \<exists>x\<in>set xs. f x = Some y"
proof -
  assume e: "each_row f xs = Some ys" and y: "y \<in> set ys"
  then obtain i where i: "i < length ys" "ys ! i = y" by (auto simp: in_set_conv_nth)
  have "length ys = length xs" using e by (rule each_row_length)
  with i e have "f (xs ! i) = Some y" "xs ! i \<in> set xs" by (auto dest: each_row_nth)
  then show ?thesis by blast
qed

lemma topk_sel_length: "length (topk_sel xs n) = min n (length xs)"
  by (simp add: topk_sel_def min.commute)

lemma topk_sel_mem: "(i, v) \<in> set (topk_sel xs n) \<Longrightarrow> i < length xs \<and> v = xs ! i"
proof -
  assume "(i, v) \<in> set (topk_sel xs n)"
  then have "(i, v) \<in> set (enumerate 0 xs)"
    unfolding topk_sel_def by (auto dest: in_set_takeD)
  then show ?thesis by (simp add: in_set_enumerate_eq)
qed

lemma topk_sel_distinct: "distinct (map fst (topk_sel xs n))"
proof -
  have "distinct (map fst (enumerate 0 xs))" by simp
  then have "distinct (map fst (sort_key (\<lambda>p. - snd p) (enumerate 0 xs)))"
    unfolding distinct_map by simp
  then show ?thesis
    unfolding topk_sel_def by (simp add: take_map[symmetric] distinct_take del: take_map)
qed

lemma topk_sel_sorted: "sorted (map (\<lambda>p. - snd p) (topk_sel xs n))"
  unfolding topk_sel_def by (simp add: take_map[symmetric] sorted_wrt_take del: take_map)

lemma topk_sel_largest:
  assumes "i \<in> set (map fst (topk_sel xs n))" "j < length xs" "j \<notin> set (map fst (topk_sel xs n))"
  shows "xs ! j \<le> xs ! i"
proof -
  let ?s = "sort_key (\<lambda>p. - snd p) (enumerate 0 xs)"
  have split: "?s = take n ?s @ drop n ?s" by simp
  have "(j, xs ! j) \<in> set (enumerate 0 xs)" using assms(2) by (simp add: in_set_enumerate_eq)
  then have "(j, xs ! j) \<in> set ?s" by simp
  then have "(j, xs ! j) \<in> set (take n ?s) \<or> (j, xs ! j) \<in> set (drop n ?s)"
    by (metis Un_iff set_append split)
  moreover have "(j, xs ! j) \<notin> set (take n ?s)"
    using assms(3) unfolding topk_sel_def by force
  ultimately have jd: "(j, xs ! j) \<in> set (drop n ?s)" by blast
  from assms(1) obtain v where iv: "(i, v) \<in> set (take n ?s)"
    unfolding topk_sel_def by auto
  then have "v = xs ! i" using topk_sel_mem[of i v xs n] by (simp add: topk_sel_def)
  have "sorted (map (\<lambda>p. - snd p) (take n ?s @ drop n ?s))" by simp
  then have "\<forall>a\<in>set (take n ?s). \<forall>b\<in>set (drop n ?s). - snd a \<le> - snd b"
    unfolding map_append sorted_append by auto
  with iv jd have "- v \<le> - (xs ! j)" by fastforce
  with \<open>v = xs ! i\<close> show ?thesis by simp
qed

lemma scatter_spec:
  "length idx \<le> length src \<Longrightarrow> \<forall>i\<in>set idx. i < length t \<Longrightarrow>
   \<exists>r. scatter t idx src = Some r \<and> length r = length t \<and>
       (\<forall>j. j \<notin> set idx \<longrightarrow> r ! j = t ! j) \<and>
       (distinct idx \<longrightarrow> (\<forall>p<length idx. r ! (idx ! p) = src ! p))"
proof (induction t idx src rule: scatter.induct)
  case (1 t src)
  then show ?case by simp
next
  case (2 t i idx)
  then show ?case by simp
next
  case (3 t i idx v src)
  then have "\<exists>r. scatter (t[i := v]) idx src = Some r \<and> length r = length (t[i := v]) \<and>
       (\<forall>j. j \<notin> set idx \<longrightarrow> r ! j = t[i := v] ! j) \<and>
       (distinct idx \<longrightarrow> (\<forall>p<length idx. r ! (idx ! p) = src ! p))"
    by simp
  then obtain r where r: "scatter (t[i := v]) idx src = Some r" "length r = length t"
    "\<forall>j. j \<notin> set idx \<longrightarrow> r ! j = t[i := v] ! j"
    "distinct idx \<longrightarrow> (\<forall>p<length idx. r ! (idx ! p) = src ! p)" by auto
  have il: "i < length t" using 3 by simp
  have "distinct (i # idx) \<longrightarrow> (\<forall>p<length (i # idx). r ! ((i # idx) ! p) = (v # src) ! p)"
  proof (intro impI allI)
    fix p assume d: "distinct (i # idx)" and p: "p < length (i # idx)"
    show "r ! ((i # idx) ! p) = (v # src) ! p"
    proof (cases p)
      case 0
      then show ?thesis using d r(3) il by simp
    next
      case (Suc q)
      then show ?thesis using d r(4) p by simp
    qed
  qed
  moreover have "\<forall>j. j \<notin> set (i # idx) \<longrightarrow> r ! j = t ! j" using r(3) by simp
  ultimately show ?case using r(1,2) il by simp
qed

subsection \<open>The parts of the forward pass\<close>

lemma each_row_defined:
  assumes "\<And>x. x \<in> set xs \<Longrightarrow> \<exists>y. f x = Some y"
  shows "each_row f xs = Some (map (\<lambda>x. the (f x)) xs)"
proof (rule each_row_total)
  fix x assume "x \<in> set xs"
  then obtain y where "f x = Some y" using assms by blast
  then show "f x = Some (the (f x))" by simp
qed

lemma sparsify_Some:
  assumes "0 \<le> kk" "kk \<le> int (length row)"
  shows "\<exists>lat. sparsify row kk =
            Some (map relu (map snd (topk_sel row (nat kk))), map fst (topk_sel row (nat kk)), lat) \<and>
          length lat = length row \<and>
          (\<forall>j<length row. lat ! j =
             (if j \<in> set (map fst (topk_sel row (nat kk))) then relu (row ! j) else 0))"
proof -
  let ?sel = "topk_sel row (nat kk)"
  let ?idx = "map fst ?sel"
  let ?src = "map relu (map snd ?sel)"
  have tk: "topk row kk = Some (map snd ?sel, ?idx)"
    using assms by (simp add: topk_def)
  have bound: "\<forall>i\<in>set ?idx. i < length (replicate (length row) (0::real))"
    using topk_sel_mem[of _ _ row "nat kk"] by auto
  have "length ?idx \<le> length ?src" by simp
  from scatter_spec[OF this bound]
  obtain lat where lat: "scatter (replicate (length row) 0) ?idx ?src = Some lat"
    "length lat = length row"
    "\<forall>j. j \<notin> set ?idx \<longrightarrow> lat ! j = replicate (length row) 0 ! j"
    "distinct ?idx \<longrightarrow> (\<forall>p<length ?idx. lat ! (?idx ! p) = ?src ! p)"
    by auto
  have pt: "lat ! j = (if j \<in> set ?idx then relu (row ! j) else 0)" if j: "j < length row" for j
  proof (cases "j \<in> set ?idx")
    case True
    then obtain p where p: "p < length ?idx" "?idx ! p = j"
      by (auto simp: in_set_conv_nth)
    then have "?sel ! p \<in> set ?sel" by simp
    moreover have "fst (?sel ! p) = j" using p by simp
    ultimately have "(j, snd (?sel ! p)) \<in> set ?sel" by (metis prod.collapse)
    then have "snd (?sel ! p) = row ! j" using topk_sel_mem by blast
    moreover have "lat ! (?idx ! p) = ?src ! p" using lat(4) p(1) topk_sel_distinct by blast
    ultimately show ?thesis using True p by simp
  next
    case False
    then show ?thesis using lat(3) j by simp
  qed
  show ?thesis
    using tk lat(1,2) pt by (simp add: sparsify_def)
qed

lemma broadcast_same: "length a = length b \<Longrightarrow> broadcast f a b = Some (map2 f a b)"
  by (simp add: broadcast_def)

lemma pre_act_row_length:
  assumes "shapes_ok m" "pre_act_row m x = Some row"
  shows "length row = n_dirs m"
proof -
  from assms(2) obtain xc where "broadcast (+) (linear_layer (encoder m) xc) (latent_bias m) = Some row"
    by (auto simp: pre_act_row_def split: option.splits if_splits)
  moreover have "length (linear_layer (encoder m) xc) = length (latent_bias m)"
    using assms(1) by (simp add: shapes_ok_def linear_layer_def)
  ultimately show ?thesis
    using assms(1) by (auto simp: broadcast_same shapes_ok_def)
qed

lemma pre_rows_length:
  assumes "shapes_ok m" "each_row (pre_act_row m) x = Some pre" "row \<in> set pre"
  shows "length row = n_dirs m"
proof -
  from each_row_set[OF assms(2,3)] obtain x0 where "pre_act_row m x0 = Some row" by auto
  with assms(1) show ?thesis by (rule pre_act_row_length)
qed

lemma decode_dense_Some:
  assumes "shapes_ok m" "length lat = n_dirs m"
  shows "decode_dense m lat = Some (map2 (+) (linear_layer (decoder m) lat) (pre_bias m))"
  using assms by (simp add: decode_dense_def shapes_ok_def linear_layer_def broadcast_same)

lemma update_stats_length: "length (update_stats st idx) = length st"
proof -
  have "length (fold (\<lambda>i t. t[i := 0]) us t) = length t" for us and t :: "64 word list"
    by (induction us arbitrary: t) auto
  then show ?thesis by (simp add: update_stats_def Let_def)
qed

lemma shapes_ok_stats:
  "shapes_ok m \<Longrightarrow> shapes_ok (m\<lparr>stats_last_nonzero := update_stats (stats_last_nonzero m) idx\<rparr>)"
  by (simp add: shapes_ok_def update_stats_length)

lemma primary_code_Some:
  assumes "0 \<le> k m" "k m \<le> int (n_dirs m)" "\<forall>row\<in>set pre. length row = n_dirs m"
  shows "primary_code m pre = Some (map (\<lambda>row. the (sparsify row (k m))) pre)"
proof -
  have "\<exists>y. sparsify row (k m) = Some y" if "row \<in> set pre" for row
    using sparsify_Some[of "k m" row] assms that by auto
  then show ?thesis
    using assms(1,2) by (simp add: primary_code_def each_row_defined)
qed

lemma multik_latents_Some:
  assumes "0 \<le> k m" "\<forall>row\<in>set pre. length row = n_dirs m"
  shows "\<exists>ml. multik_latents m pre = Some ml \<and>
           (\<forall>l. ml = Some l \<longrightarrow> (\<forall>lat\<in>set l. length lat = n_dirs m))"
proof (cases "multik m \<noteq> None \<and> multik m \<noteq> Some 0")
  case False
  then show ?thesis by (auto simp: multik_latents_def)
next
  case True
  let ?kk = "min (4 * k m) (int (n_dirs m))"
  let ?f = "\<lambda>row. sparsify row ?kk"
  have ex: "\<exists>y. ?f row = Some y" if "row \<in> set pre" for row
    using sparsify_Some[of ?kk row] assms that by auto
  then have er: "each_row ?f pre = Some (map (\<lambda>row. the (?f row)) pre)"
    by (rule each_row_defined)
  have "length lat = n_dirs m"
    if "lat \<in> set (map (\<lambda>(vals, idx, lat). lat) (map (\<lambda>row. the (?f row)) pre))" for lat
  proof -
    from that obtain row where row: "row \<in> set pre" "lat = (\<lambda>(vals, idx, lat). lat) (the (?f row))"
      by auto
    from sparsify_Some[of ?kk row] assms row(1)
    obtain l where "?f row = Some (map relu (map snd (topk_sel row (nat ?kk))), map fst (topk_sel row (nat ?kk)), l)"
      "length l = length row" by auto
    then show ?thesis using row assms(2) by simp
  qed
  then show ?thesis using True er by (simp add: multik_latents_def)
qed

lemma dead_mask_length: "length (dead_mask m) = length (stats_last_nonzero m)"
  by (simp add: dead_mask_def)

lemma auxk_row_Some:
  assumes "0 \<le> a" "length row = length (stats_last_nonzero m)"
  shows "auxk_row m a row =
     Some (map relu (map snd (topk_sel (map2 (*) row (dead_mask m)) (nat (min a (int (length row)))))),
           map fst (topk_sel (map2 (*) row (dead_mask m)) (nat (min a (int (length row))))))"
  using assms by (simp add: auxk_row_def broadcast_same dead_mask_length topk_def)

lemma auxk_code_Some:
  assumes "shapes_ok m" "\<forall>a. auxk m = Some a \<longrightarrow> 0 \<le> a" "\<forall>row\<in>set pre. length row = n_dirs m"
  shows "\<exists>av ai. auxk_code m pre = Some (av, ai)"
proof (cases "auxk m")
  case None
  then show ?thesis by (simp add: auxk_code_def)
next
  case (Some a)
  have "\<exists>y. auxk_row m a row = Some y" if "row \<in> set pre" for row
    using auxk_row_Some[of a row m] assms Some that by (simp add: shapes_ok_def)
  then have "each_row (auxk_row m a) pre = Some (map (\<lambda>row. the (auxk_row m a row)) pre)"
    by (rule each_row_defined)
  then show ?thesis using Some by (simp add: auxk_code_def)
qed

lemma sparsify_the:
  assumes "0 \<le> kk" "kk \<le> int (length row)"
  shows "(\<lambda>(vals, idx, lat). idx) (the (sparsify row kk)) = map fst (topk_sel row (nat kk))"
    and "(\<lambda>(vals, idx, lat). vals) (the (sparsify row kk)) = map relu (map snd (topk_sel row (nat kk)))"
    and "length ((\<lambda>(vals, idx, lat). lat) (the (sparsify row kk))) = length row"
    and "\<forall>j<length row. (\<lambda>(vals, idx, lat). lat) (the (sparsify row kk)) ! j =
           (if j \<in> set (map fst (topk_sel row (nat kk))) then relu (row ! j) else 0)"
proof -
  from sparsify_Some[OF assms] obtain lat where
    e: "sparsify row kk =
          Some (map relu (map snd (topk_sel row (nat kk))), map fst (topk_sel row (nat kk)), lat)"
    and l: "length lat = length row"
    and p: "\<forall>j<length row. lat ! j =
             (if j \<in> set (map fst (topk_sel row (nat kk))) then relu (row ! j) else 0)"
    by blast
  show "(\<lambda>(vals, idx, lat). idx) (the (sparsify row kk)) = map fst (topk_sel row (nat kk))"
    by (simp only: e option.sel prod.case)
  show "(\<lambda>(vals, idx, lat). vals) (the (sparsify row kk)) = map relu (map snd (topk_sel row (nat kk)))"
    by (simp only: e option.sel prod.case)
  show "length ((\<lambda>(vals, idx, lat). lat) (the (sparsify row kk))) = length row"
    using l by (simp only: e option.sel prod.case)
  show "\<forall>j<length row. (\<lambda>(vals, idx, lat). lat) (the (sparsify row kk)) ! j =
           (if j \<in> set (map fst (topk_sel row (nat kk))) then relu (row ! j) else 0)"
    using p by (simp only: e option.sel prod.case)
qed

lemma forward_returns:
  assumes ok: "shapes_ok m" and k0: "0 \<le> k m" and kn: "k m \<le> int (n_dirs m)"
    and ax: "\<forall>a. auxk m = Some a \<longrightarrow> 0 \<le> a"
    and pre: "each_row (pre_act_row m) x = Some pre"
  shows "\<exists>recons info.
     forward m x =
       (m\<lparr>stats_last_nonzero := update_stats (stats_last_nonzero m)
            (map (\<lambda>row. map fst (topk_sel row (nat (k m)))) pre)\<rparr>, Some (recons, info)) \<and>
     topk_indices info = map (\<lambda>row. map fst (topk_sel row (nat (k m)))) pre \<and>
     topk_values info = map (\<lambda>row. map relu (map snd (topk_sel row (nat (k m))))) pre \<and>
     latents_pre_act info = pre \<and>
     latents_post_act info = map (\<lambda>row. (\<lambda>(vals, idx, lat). lat) (the (sparsify row (k m)))) pre \<and>
     auxk_code (m\<lparr>stats_last_nonzero := update_stats (stats_last_nonzero m)
            (map (\<lambda>row. map fst (topk_sel row (nat (k m)))) pre)\<rparr>) pre =
       Some (auxk_values info, auxk_indices info)"
proof -
  let ?prim = "map (\<lambda>row. the (sparsify row (k m))) pre"
  let ?idx = "map (\<lambda>(vals, idx, lat). idx) ?prim"
  let ?lat = "map (\<lambda>(vals, idx, lat). lat) ?prim"
  let ?m' = "m\<lparr>stats_last_nonzero := update_stats (stats_last_nonzero m) ?idx\<rparr>"
  have rows: "\<forall>row\<in>set pre. length row = n_dirs m"
    using pre_rows_length[OF ok pre] by blast
  have rk: "k m \<le> int (length row)" if "row \<in> set pre" for row
    using rows kn that by simp
  have pc: "primary_code m pre = Some ?prim"
    by (rule primary_code_Some[OF k0 kn rows])
  have idx: "?idx = map (\<lambda>row. map fst (topk_sel row (nat (k m)))) pre"
    using sparsify_the(1)[OF k0 rk] by (simp add: comp_def)
  have vals: "map (\<lambda>(vals, idx, lat). vals) ?prim =
        map (\<lambda>row. map relu (map snd (topk_sel row (nat (k m))))) pre"
    using sparsify_the(2)[OF k0 rk] by (simp add: comp_def)
  have lat: "?lat = map (\<lambda>row. (\<lambda>(vals, idx, lat). lat) (the (sparsify row (k m)))) pre"
    by (simp add: comp_def)
  have latlen: "\<forall>l\<in>set ?lat. length l = n_dirs m"
    using sparsify_the(3)[OF k0 rk] rows by auto
  obtain ml where ml: "multik_latents m pre = Some ml"
      "\<forall>l. ml = Some l \<longrightarrow> (\<forall>lat\<in>set l. length lat = n_dirs m)"
    using multik_latents_Some[OF k0 rows] by blast
  have ok': "shapes_ok ?m'" by (rule shapes_ok_stats[OF ok])
  have nd: "n_dirs ?m' = n_dirs m" by simp
  have dec: "each_row (decode_dense ?m') ls = Some (map (\<lambda>l. the (decode_dense ?m' l)) ls)"
    if "\<forall>l\<in>set ls. length l = n_dirs m" for ls
  proof (rule each_row_defined)
    fix l assume "l \<in> set ls"
    then have "length l = n_dirs ?m'" using that by simp
    from decode_dense_Some[OF ok' this] show "\<exists>y. decode_dense ?m' l = Some y" by blast
  qed
  have dec1: "each_row (decode_dense ?m') ?lat = Some (map (\<lambda>l. the (decode_dense ?m' l)) ?lat)"
    by (rule dec[OF latlen])
  obtain mr where mr: "(case ml of None \<Rightarrow> Some None
                   | Some l \<Rightarrow> map_option Some (each_row (decode_dense ?m') l)) = Some mr"
  proof (cases ml)
    case None
    then show ?thesis using that by simp
  next
    case (Some l)
    then show ?thesis using that dec[of l] ml(2) by simp
  qed
  have ax': "\<forall>a. auxk ?m' = Some a \<longrightarrow> 0 \<le> a" using ax by simp
  have rows': "\<forall>row\<in>set pre. length row = n_dirs ?m'" using rows by simp
  obtain av ai where aux: "auxk_code ?m' pre = Some (av, ai)"
    using auxk_code_Some[OF ok' ax' rows'] by blast
  have "forward m x = (?m', Some (map (\<lambda>l. the (decode_dense ?m' l)) ?lat,
          \<lparr>topk_indices = ?idx, topk_values = map (\<lambda>(vals, idx, lat). vals) ?prim,
           multik_recons = mr, auxk_indices = ai, auxk_values = av,
           latents_pre_act = pre, latents_post_act = ?lat\<rparr>))"
    by (simp only: forward_def pre pc ml(1) Let_def dec1 mr aux option.case prod.case)
  then show ?thesis
    using idx vals lat aux by (simp del: map_map)
qed

lemma topk_sel_nth:
  assumes "p < length (topk_sel xs n)"
  shows "fst (topk_sel xs n ! p) < length xs \<and> snd (topk_sel xs n ! p) = xs ! fst (topk_sel xs n ! p)"
proof -
  have "topk_sel xs n ! p \<in> set (topk_sel xs n)" using assms by simp
  then have "(fst (topk_sel xs n ! p), snd (topk_sel xs n ! p)) \<in> set (topk_sel xs n)" by simp
  then show ?thesis by (rule topk_sel_mem)
qed

lemma relu_nonneg: "0 \<le> relu v"
  by (simp add: relu_def)

lemma scenario_sparsify:
  "sparsify [1 / 10, 9 / 10, - (3 / 10)] 2 = Some ([9 / 10, 1 / 10], [1, 0], [1 / 10, 9 / 10, 0])"
  by (simp add: sparsify_def topk_def topk_sel_def enumerate_eq_zip upt_rec relu_def)

lemma scenario_topk_sel:
  "topk_sel [1 / 10, 9 / 10, - (3 / 10)] 2 = [(1, 9 / 10), (0, 1 / 10)]"
  by (simp add: topk_sel_def enumerate_eq_zip upt_rec)

section \<open>The claims\<close>

text \<open>
  C1. For a model with its constructed shapes and \<open>0 \<le> k \<le> n_dirs\<close>, and every batch whose rows
  the encoder accepts, the forward pass returns, and the primary code of every row has exactly
  \<open>k\<close> indices and \<open>k\<close> values; the indices are distinct positions below \<open>n_dirs\<close>; every
  value is the non-negative clamp of the pre-activation at its index; no entry left out is
  larger than a selected one; the dense vector \<^verbatim>\<open>latents_post_act\<close> is zero outside the
  selected positions. For the pre-activation \<open>[0.1, 0.9, -0.3]\<close> and \<open>k = 2\<close> the indices are
  \<open>[1, 0]\<close>, the values \<open>[0.9, 0.1]\<close>, and position 2 holds zero.
\<close>

theorem forward_primary_code:
  assumes "shapes_ok m" and "0 \<le> k m" and "k m \<le> int (n_dirs m)"
    and "\<forall>a. auxk m = Some a \<longrightarrow> 0 \<le> a"
    and "each_row (pre_act_row m) x = Some pre"
  shows "\<exists>m' recons info.
     forward m x = (m', Some (recons, info)) \<and> latents_pre_act info = pre \<and>
     length (topk_indices info) = length pre \<and> length (topk_values info) = length pre \<and>
     length (latents_post_act info) = length pre \<and>
     (\<forall>r<length pre.
        length (topk_indices info ! r) = nat (k m) \<and>
        length (topk_values info ! r) = nat (k m) \<and>
        distinct (topk_indices info ! r) \<and>
        (\<forall>v\<in>set (topk_values info ! r). 0 \<le> v) \<and>
        (\<forall>p<nat (k m). topk_indices info ! r ! p < n_dirs m \<and>
            topk_values info ! r ! p = relu (pre ! r ! (topk_indices info ! r ! p))) \<and>
        (\<forall>i\<in>set (topk_indices info ! r). \<forall>j<n_dirs m.
            j \<notin> set (topk_indices info ! r) \<longrightarrow> pre ! r ! j \<le> pre ! r ! i) \<and>
        length (latents_post_act info ! r) = n_dirs m \<and>
        (\<forall>j<n_dirs m. latents_post_act info ! r ! j =
            (if j \<in> set (topk_indices info ! r) then relu (pre ! r ! j) else 0))) \<and>
     (pre = [[1 / 10, 9 / 10, - (3 / 10)]] \<and> k m = 2 \<longrightarrow>
        topk_indices info = [[1, 0]] \<and> topk_values info = [[9 / 10, 1 / 10]] \<and>
        latents_post_act info = [[1 / 10, 9 / 10, 0]])"
proof -
  let ?n = "nat (k m)"
  from forward_returns[OF assms] obtain recons info m' where
    fw: "forward m x = (m', Some (recons, info))"
    and ti: "topk_indices info = map (\<lambda>row. map fst (topk_sel row ?n)) pre"
    and tv: "topk_values info = map (\<lambda>row. map relu (map snd (topk_sel row ?n))) pre"
    and lp: "latents_pre_act info = pre"
    and la: "latents_post_act info = map (\<lambda>row. (\<lambda>(vals, idx, lat). lat) (the (sparsify row (k m)))) pre"
    by blast
  have rowlen: "length (pre ! r) = n_dirs m" if "r < length pre" for r
    using pre_rows_length[OF assms(1,5)] that by simp
  have per_row:
    "length (topk_indices info ! r) = ?n \<and>
     length (topk_values info ! r) = ?n \<and>
     distinct (topk_indices info ! r) \<and>
     (\<forall>v\<in>set (topk_values info ! r). 0 \<le> v) \<and>
     (\<forall>p<?n. topk_indices info ! r ! p < n_dirs m \<and>
         topk_values info ! r ! p = relu (pre ! r ! (topk_indices info ! r ! p))) \<and>
     (\<forall>i\<in>set (topk_indices info ! r). \<forall>j<n_dirs m.
         j \<notin> set (topk_indices info ! r) \<longrightarrow> pre ! r ! j \<le> pre ! r ! i) \<and>
     length (latents_post_act info ! r) = n_dirs m \<and>
     (\<forall>j<n_dirs m. latents_post_act info ! r ! j =
         (if j \<in> set (topk_indices info ! r) then relu (pre ! r ! j) else 0))"
    if r: "r < length pre" for r
  proof -
    let ?row = "pre ! r"
    let ?sel = "topk_sel ?row ?n"
    have rl: "length ?row = n_dirs m" by (rule rowlen[OF r])
    have kr: "k m \<le> int (length ?row)" using rl assms(3) by simp
    have i: "topk_indices info ! r = map fst ?sel" using ti r by simp
    have v: "topk_values info ! r = map relu (map snd ?sel)" using tv r by simp
    have l: "latents_post_act info ! r = (\<lambda>(vals, idx, lat). lat) (the (sparsify ?row (k m)))"
      using la r by simp
    have len: "length ?sel = ?n"
      using rl assms(2,3) by (simp add: topk_sel_length)
    have c1: "length (topk_indices info ! r) = ?n" using i len by simp
    have c2: "length (topk_values info ! r) = ?n" using v len by simp
    have c3: "distinct (topk_indices info ! r)" using i topk_sel_distinct by simp
    have c4: "\<forall>v\<in>set (topk_values info ! r). 0 \<le> v" using v relu_nonneg by auto
    have c5: "\<forall>p<?n. topk_indices info ! r ! p < n_dirs m \<and>
         topk_values info ! r ! p = relu (pre ! r ! (topk_indices info ! r ! p))"
    proof (intro allI impI)
      fix p assume "p < ?n"
      then have p: "p < length ?sel" using len by simp
      from topk_sel_nth[OF p] show "topk_indices info ! r ! p < n_dirs m \<and>
         topk_values info ! r ! p = relu (pre ! r ! (topk_indices info ! r ! p))"
        using p rl by (simp add: i v)
    qed
    have c6: "\<forall>i\<in>set (topk_indices info ! r). \<forall>j<n_dirs m.
         j \<notin> set (topk_indices info ! r) \<longrightarrow> pre ! r ! j \<le> pre ! r ! i"
      unfolding i using topk_sel_largest[of _ ?row ?n] rl by metis
    have c7: "length (latents_post_act info ! r) = n_dirs m"
      using sparsify_the(3)[OF assms(2) kr] rl by (simp only: l)
    have c8: "\<forall>j<n_dirs m. latents_post_act info ! r ! j =
         (if j \<in> set (topk_indices info ! r) then relu (pre ! r ! j) else 0)"
      using sparsify_the(4)[OF assms(2) kr] rl by (simp only: l i)
    show ?thesis using c1 c2 c3 c4 c5 c6 c7 c8 by blast
  qed
  have scen: "topk_indices info = [[1, 0]] \<and> topk_values info = [[9 / 10, 1 / 10]] \<and>
        latents_post_act info = [[1 / 10, 9 / 10, 0]]"
    if "pre = [[1 / 10, 9 / 10, - (3 / 10)]]" "k m = 2"
    using that ti tv la scenario_topk_sel scenario_sparsify by (simp add: relu_def)
  have lens: "length (topk_indices info) = length pre" "length (topk_values info) = length pre"
    "length (latents_post_act info) = length pre"
    using ti tv la by simp_all
  show ?thesis
    using fw lp lens per_row scen by blast
qed

theorem forward_primary_code_witness:
  "shapes_ok scenario_model \<and>
   each_row (pre_act_row scenario_model) scenario_input = Some [[1 / 10, 9 / 10, - (3 / 10)]] \<and>
   topk_indices (snd (the (snd (forward scenario_model scenario_input)))) = [[1, 0]] \<and>
   topk_values (snd (the (snd (forward scenario_model scenario_input)))) = [[9 / 10, 1 / 10]] \<and>
   latents_post_act (snd (the (snd (forward scenario_model scenario_input)))) = [[1 / 10, 9 / 10, 0]]"
proof -
  have h1: "shapes_ok scenario_model"
    by (simp add: shapes_ok_def scenario_model_def)
  have h2: "0 \<le> k scenario_model" and h3: "k scenario_model \<le> int (n_dirs scenario_model)"
    and h4: "\<forall>a. auxk scenario_model = Some a \<longrightarrow> 0 \<le> a"
    by (simp_all add: scenario_model_def)
  have h5: "each_row (pre_act_row scenario_model) scenario_input =
      Some [[1 / 10, 9 / 10, - (3 / 10)]]"
    by (simp add: scenario_model_def scenario_input_def pre_act_row_def broadcast_def
        linear_layer_def dot_def)
  have k2: "k scenario_model = 2" by (simp add: scenario_model_def)
  from forward_primary_code[OF h1 h2 h3 h4 h5] obtain m' recons info where
    "forward scenario_model scenario_input = (m', Some (recons, info))"
    "topk_indices info = [[1, 0]] \<and> topk_values info = [[9 / 10, 1 / 10]] \<and>
     latents_post_act info = [[1 / 10, 9 / 10, 0]]"
    using k2 by blast
  then show ?thesis using h1 h5 by simp
qed

subsection \<open>Dead-step counters\<close>

lemma fold_zero_nth:
  fixes t :: "64 word list"
  shows "j < length t \<Longrightarrow> fold (\<lambda>i t. t[i := 0]) us t ! j = (if j \<in> set us then 0 else t ! j)"
proof (induction us arbitrary: t)
  case Nil
  then show ?case by simp
next
  case (Cons u us)
  then have "fold (\<lambda>i t. t[i := 0]) us (t[u := 0]) ! j = (if j \<in> set us then 0 else t[u := 0] ! j)"
    by simp
  then show ?case using Cons.prems by (auto simp: nth_list_update)
qed

lemma update_stats_nth:
  assumes "j < length st"
  shows "update_stats st idx ! j = (if j \<in> set (concat idx) then 0 else st ! j + 1)"
proof -
  let ?u = "sort (remdups (concat idx))"
  have su: "set ?u = set (concat idx)" by simp
  have j1: "j < length (map (\<lambda>s. s + 1) st)" using assms by simp
  show ?thesis
  proof (cases "?u = []")
    case True
    then have "set (concat idx) = {}" using su by (metis set_empty)
    then have "j \<notin> set (concat idx)" by (simp only: empty_iff simp_thms)
    moreover have "update_stats st idx = map (\<lambda>s. s + 1) st"
      using True by (simp add: update_stats_def Let_def)
    ultimately show ?thesis using assms by simp
  next
    case False
    then have "update_stats st idx = fold (\<lambda>i t. t[i := 0]) ?u (map (\<lambda>s. s + 1) st)"
      by (simp add: update_stats_def Let_def)
    then have "update_stats st idx ! j = (if j \<in> set ?u then 0 else map (\<lambda>s. s + 1) st ! j)"
      using fold_zero_nth[OF j1] by simp
    then show ?thesis using assms by (simp only: su nth_map)
  qed
qed

text \<open>
  C2. After a forward pass over a batch, the counter of every latent dimension that occurs
  among the primary indices of some row of the batch is 0, and the counter of every other
  dimension is its old value plus one (the code counts calls, not items:
  \<^verbatim>\<open>self.stats_last_nonzero += 1\<close>); no other field of the model changes.
\<close>

theorem forward_dead_steps:
  assumes "shapes_ok m" and "0 \<le> k m" and "k m \<le> int (n_dirs m)"
    and "\<forall>a. auxk m = Some a \<longrightarrow> 0 \<le> a"
    and "each_row (pre_act_row m) x = Some pre"
  shows "\<exists>m' recons info.
     forward m x = (m', Some (recons, info)) \<and>
     m' = m\<lparr>stats_last_nonzero := stats_last_nonzero m'\<rparr> \<and>
     length (stats_last_nonzero m') = n_dirs m \<and>
     (\<forall>j<n_dirs m. stats_last_nonzero m' ! j =
        (if j \<in> \<Union> (set ` set (topk_indices info)) then 0 else stats_last_nonzero m ! j + 1))"
proof -
  let ?idx = "map (\<lambda>row. map fst (topk_sel row (nat (k m)))) pre"
  let ?m' = "m\<lparr>stats_last_nonzero := update_stats (stats_last_nonzero m) ?idx\<rparr>"
  from forward_returns[OF assms] obtain recons info where
    fw: "forward m x = (?m', Some (recons, info))" and ti: "topk_indices info = ?idx"
    by blast
  have len: "length (stats_last_nonzero m) = n_dirs m"
    using assms(1) by (simp add: shapes_ok_def)
  have a: "?m' = ?m'\<lparr>stats_last_nonzero := stats_last_nonzero ?m'\<rparr>" by simp
  have b: "length (stats_last_nonzero ?m') = n_dirs m"
    using len by (simp add: update_stats_length)
  have c: "\<forall>j<n_dirs m. stats_last_nonzero ?m' ! j =
        (if j \<in> \<Union> (set ` set (topk_indices info)) then 0 else stats_last_nonzero m ! j + 1)"
  proof (intro allI impI)
    fix j assume "j < n_dirs m"
    then have "j < length (stats_last_nonzero m)" using len by simp
    from update_stats_nth[OF this, of ?idx]
    have e1: "update_stats (stats_last_nonzero m) ?idx ! j =
        (if j \<in> set (concat ?idx) then 0 else stats_last_nonzero m ! j + 1)" .
    have e2: "set (concat ?idx) = \<Union> (set ` set (topk_indices info))"
      by (simp only: ti set_concat)
    have sel: "stats_last_nonzero ?m' = update_stats (stats_last_nonzero m) ?idx" by simp
    show "stats_last_nonzero ?m' ! j =
        (if j \<in> \<Union> (set ` set (topk_indices info)) then 0 else stats_last_nonzero m ! j + 1)"
      by (simp only: sel e1 e2)
  qed
  show ?thesis
    using fw b c by (intro exI[of _ ?m'] exI[of _ recons] exI[of _ info]) simp
qed

lemma scenario_forward:
  "forward scenario_model scenario_input =
     (scenario_model\<lparr>stats_last_nonzero := [0, 0, 6]\<rparr>,
      Some ([[1 / 10, 9 / 10, 0, 0]],
        \<lparr>topk_indices = [[1, 0]], topk_values = [[9 / 10, 1 / 10]], multik_recons = None,
          auxk_indices = None, auxk_values = None,
          latents_pre_act = [[1 / 10, 9 / 10, - (3 / 10)]],
          latents_post_act = [[1 / 10, 9 / 10, 0]]\<rparr>))"
  by (simp add: forward_def scenario_model_def scenario_input_def pre_act_row_def broadcast_def
      linear_layer_def dot_def primary_code_def sparsify_def topk_def topk_sel_def enumerate_eq_zip
      upt_rec relu_def multik_latents_def update_stats_def decode_dense_def auxk_code_def)

theorem forward_dead_steps_witness:
  "shapes_ok scenario_model \<and>
   stats_last_nonzero scenario_model = [5, 5, 5] \<and>
   topk_indices (snd (the (snd (forward scenario_model scenario_input)))) = [[1, 0]] \<and>
   stats_last_nonzero (fst (forward scenario_model scenario_input)) ! 0 = 0 \<and>
   stats_last_nonzero (fst (forward scenario_model scenario_input)) ! 1 = 0 \<and>
   stats_last_nonzero (fst (forward scenario_model scenario_input)) ! 2 = 6"
proof -
  have h1: "shapes_ok scenario_model"
    by (simp add: shapes_ok_def scenario_model_def)
  have h2: "0 \<le> k scenario_model" and h3: "k scenario_model \<le> int (n_dirs scenario_model)"
    and h4: "\<forall>a. auxk scenario_model = Some a \<longrightarrow> 0 \<le> a"
    by (simp_all add: scenario_model_def)
  have h5: "each_row (pre_act_row scenario_model) scenario_input =
      Some [[1 / 10, 9 / 10, - (3 / 10)]]"
    by (simp add: scenario_model_def scenario_input_def pre_act_row_def broadcast_def
        linear_layer_def dot_def)
  have st: "stats_last_nonzero scenario_model = [5, 5, 5]" and n: "n_dirs scenario_model = 3"
    by (simp_all add: scenario_model_def)
  from forward_dead_steps[OF h1 h2 h3 h4 h5] obtain m' recons info where
    fw: "forward scenario_model scenario_input = (m', Some (recons, info))"
    and upd: "\<forall>j<n_dirs scenario_model. stats_last_nonzero m' ! j =
        (if j \<in> \<Union> (set ` set (topk_indices info)) then 0
         else stats_last_nonzero scenario_model ! j + 1)"
    by blast
  have "info = snd (the (snd (forward scenario_model scenario_input)))"
    using fw by simp
  then have ti: "topk_indices info = [[1, 0]]"
    by (simp add: scenario_forward)
  have "stats_last_nonzero m' ! 0 = 0" "stats_last_nonzero m' ! 1 = 0"
    "stats_last_nonzero m' ! 2 = 6"
    using upd n st ti by simp_all
  then show ?thesis using h1 st ti fw by simp
qed

subsection \<open>The auxiliary code\<close>

lemma dead_mask_nth:
  "j < length (stats_last_nonzero m) \<Longrightarrow> dead_mask m ! j = (if dead m j then 1 else 0)"
  by (simp add: dead_mask_def dead_def)

lemma aux_model_forward:
  "forward aux_model [[1]] =
     (aux_model\<lparr>stats_last_nonzero := [1, 0]\<rparr>,
      Some ([[0]],
        \<lparr>topk_indices = [[1]], topk_values = [[2]], multik_recons = Some [[1]],
          auxk_indices = Some [[0]], auxk_values = Some [[0]], latents_pre_act = [[1, 2]],
          latents_post_act = [[0, 2]]\<rparr>))"
  by (simp add: forward_def aux_model_def pre_act_row_def broadcast_def linear_layer_def dot_def
      primary_code_def sparsify_def topk_def topk_sel_def enumerate_eq_zip upt_rec relu_def
      multik_latents_def update_stats_def decode_dense_def auxk_code_def auxk_row_def
      dead_mask_def)

text \<open>
  C3, as stated, fails: with \<^verbatim>\<open>auxk = 1\<close> and no dead dimension, before or after the
  update, the auxiliary code of the input is not empty; it holds dimension 0, which is not
  dead, with value 0.
\<close>

theorem forward_auxk_not_only_dead:
  "auxk_indices (snd (the (snd (forward aux_model [[1]])))) = Some [[0]] \<and>
   auxk_values (snd (the (snd (forward aux_model [[1]])))) = Some [[0]] \<and>
   \<not> dead (fst (forward aux_model [[1]])) 0 \<and>
   \<not> dead (fst (forward aux_model [[1]])) 1 \<and>
   \<not> dead aux_model 0 \<and> \<not> dead aux_model 1"
  by (simp add: aux_model_forward dead_def) (simp add: aux_model_def)

text \<open>
  C3, amended. When \<^verbatim>\<open>auxk\<close> is set to \<open>a\<close>, the auxiliary code of every row has exactly
  \<open>min(a, n_dirs)\<close> distinct indices, whatever the number of dead dimensions; it selects
  the largest entries of the pre-activation in which the entry of every dimension that is
  not dead has been multiplied by zero (dead on the counters as this pass has updated
  them); its values are the non-negative clamp of these masked entries, so that every
  non-zero value sits at a dead dimension. The code is absent exactly when \<^verbatim>\<open>auxk\<close> is
  \<^verbatim>\<open>None\<close>.
\<close>

theorem forward_auxk_code:
  assumes "shapes_ok m" and "0 \<le> k m" and "k m \<le> int (n_dirs m)"
    and "\<forall>a. auxk m = Some a \<longrightarrow> 0 \<le> a"
    and "each_row (pre_act_row m) x = Some pre"
  shows "\<exists>m' recons info.
     forward m x = (m', Some (recons, info)) \<and>
     (auxk m = None \<longrightarrow> auxk_indices info = None \<and> auxk_values info = None) \<and>
     (\<forall>a. auxk m = Some a \<longrightarrow>
        (\<exists>ai av. auxk_indices info = Some ai \<and> auxk_values info = Some av \<and>
           length ai = length pre \<and> length av = length pre \<and>
           (\<forall>r<length pre.
              length (ai ! r) = nat (min a (int (n_dirs m))) \<and>
              length (av ! r) = nat (min a (int (n_dirs m))) \<and>
              distinct (ai ! r) \<and>
              (\<forall>p<nat (min a (int (n_dirs m))).
                  ai ! r ! p < n_dirs m \<and>
                  av ! r ! p = relu (pre ! r ! (ai ! r ! p) * (if dead m' (ai ! r ! p) then 1 else 0)) \<and>
                  (av ! r ! p \<noteq> 0 \<longrightarrow> dead m' (ai ! r ! p))) \<and>
              (\<forall>i\<in>set (ai ! r). \<forall>j<n_dirs m. j \<notin> set (ai ! r) \<longrightarrow>
                  pre ! r ! j * (if dead m' j then 1 else 0)
                  \<le> pre ! r ! i * (if dead m' i then 1 else 0)))))"
proof -
  let ?idx = "map (\<lambda>row. map fst (topk_sel row (nat (k m)))) pre"
  let ?m' = "m\<lparr>stats_last_nonzero := update_stats (stats_last_nonzero m) ?idx\<rparr>"
  from forward_returns[OF assms] obtain recons info where
    fw: "forward m x = (?m', Some (recons, info))"
    and ac: "auxk_code ?m' pre = Some (auxk_values info, auxk_indices info)"
    by blast
  have rowlen: "length (pre ! r) = n_dirs m" if "r < length pre" for r
    using pre_rows_length[OF assms(1,5)] that by simp
  have stlen: "length (stats_last_nonzero ?m') = n_dirs m"
    using assms(1) by (simp add: shapes_ok_def update_stats_length)
  have none: "auxk_indices info = None \<and> auxk_values info = None" if "auxk m = None"
    using ac that by (simp add: auxk_code_def)
  have some: "\<exists>ai av. auxk_indices info = Some ai \<and> auxk_values info = Some av \<and>
           length ai = length pre \<and> length av = length pre \<and>
           (\<forall>r<length pre.
              length (ai ! r) = nat (min a (int (n_dirs m))) \<and>
              length (av ! r) = nat (min a (int (n_dirs m))) \<and>
              distinct (ai ! r) \<and>
              (\<forall>p<nat (min a (int (n_dirs m))).
                  ai ! r ! p < n_dirs m \<and>
                  av ! r ! p = relu (pre ! r ! (ai ! r ! p) * (if dead ?m' (ai ! r ! p) then 1 else 0)) \<and>
                  (av ! r ! p \<noteq> 0 \<longrightarrow> dead ?m' (ai ! r ! p))) \<and>
              (\<forall>i\<in>set (ai ! r). \<forall>j<n_dirs m. j \<notin> set (ai ! r) \<longrightarrow>
                  pre ! r ! j * (if dead ?m' j then 1 else 0)
                  \<le> pre ! r ! i * (if dead ?m' i then 1 else 0)))"
    if a: "auxk m = Some a" for a
  proof -
    let ?w = "nat (min a (int (n_dirs m)))"
    let ?msk = "\<lambda>row. map2 (*) row (dead_mask ?m')"
    let ?sel = "\<lambda>row. topk_sel (?msk row) ?w"
    have a0: "0 \<le> a" using assms(4) a by simp
    have row_eq: "auxk_row ?m' a row = Some (map relu (map snd (?sel row)), map fst (?sel row))"
      if "row \<in> set pre" for row
    proof -
      have "length row = n_dirs m" using pre_rows_length[OF assms(1,5) that] .
      then have l: "length row = length (stats_last_nonzero ?m')" using stlen by simp
      show ?thesis using auxk_row_Some[OF a0 l] \<open>length row = n_dirs m\<close> by simp
    qed
    then have "each_row (auxk_row ?m' a) pre =
        Some (map (\<lambda>row. (map relu (map snd (?sel row)), map fst (?sel row))) pre)"
      by (rule each_row_total)
    then have "auxk_code ?m' pre =
        Some (Some (map (\<lambda>row. map relu (map snd (?sel row))) pre),
              Some (map (\<lambda>row. map fst (?sel row)) pre))"
      using a by (simp add: auxk_code_def comp_def)
    with ac have av: "auxk_values info = Some (map (\<lambda>row. map relu (map snd (?sel row))) pre)"
      and ai: "auxk_indices info = Some (map (\<lambda>row. map fst (?sel row)) pre)"
      by simp_all
    have per_row:
      "length (map fst (?sel (pre ! r))) = ?w \<and>
       length (map relu (map snd (?sel (pre ! r)))) = ?w \<and>
       distinct (map fst (?sel (pre ! r))) \<and>
       (\<forall>p<?w. map fst (?sel (pre ! r)) ! p < n_dirs m \<and>
           map relu (map snd (?sel (pre ! r))) ! p =
             relu (pre ! r ! (map fst (?sel (pre ! r)) ! p) *
                   (if dead ?m' (map fst (?sel (pre ! r)) ! p) then 1 else 0)) \<and>
           (map relu (map snd (?sel (pre ! r))) ! p \<noteq> 0 \<longrightarrow>
              dead ?m' (map fst (?sel (pre ! r)) ! p))) \<and>
       (\<forall>i\<in>set (map fst (?sel (pre ! r))). \<forall>j<n_dirs m.
           j \<notin> set (map fst (?sel (pre ! r))) \<longrightarrow>
             pre ! r ! j * (if dead ?m' j then 1 else 0)
             \<le> pre ! r ! i * (if dead ?m' i then 1 else 0))"
      if r: "r < length pre" for r
    proof -
      let ?row = "pre ! r"
      let ?d = "?msk ?row"
      let ?s = "?sel ?row"
      have rl: "length ?row = n_dirs m" by (rule rowlen[OF r])
      have dl: "length ?d = n_dirs m" using rl stlen by (simp add: dead_mask_length)
      have dn: "?d ! j = ?row ! j * (if dead ?m' j then 1 else 0)" if "j < n_dirs m" for j
        using that rl stlen dead_mask_nth[of j ?m'] by (simp add: dead_mask_length)
      have len: "length ?s = ?w" using dl a0 by (simp add: topk_sel_length)
      have c1: "length (map fst ?s) = ?w" using len by simp
      have c2: "length (map relu (map snd ?s)) = ?w" using len by simp
      have c3: "distinct (map fst ?s)" by (rule topk_sel_distinct)
      have c4: "map fst ?s ! p < n_dirs m \<and>
           map relu (map snd ?s) ! p =
             relu (?row ! (map fst ?s ! p) * (if dead ?m' (map fst ?s ! p) then 1 else 0)) \<and>
           (map relu (map snd ?s) ! p \<noteq> 0 \<longrightarrow> dead ?m' (map fst ?s ! p))"
        if "p < ?w" for p
      proof -
        have p: "p < length ?s" using that len by simp
        have tn: "fst (?s ! p) < length ?d \<and> snd (?s ! p) = ?d ! fst (?s ! p)"
          by (rule topk_sel_nth[OF p])
        have b: "fst (?s ! p) < n_dirs m" using tn by (simp only: dl)
        have v: "snd (?s ! p) = ?d ! fst (?s ! p)" using tn by (rule conjunct2)
        have "map relu (map snd ?s) ! p = relu (snd (?s ! p))" using p by simp
        then have e: "map relu (map snd ?s) ! p =
             relu (?row ! fst (?s ! p) * (if dead ?m' (fst (?s ! p)) then 1 else 0))"
          by (simp only: v dn[OF b])
        have "map relu (map snd ?s) ! p \<noteq> 0 \<longrightarrow> dead ?m' (fst (?s ! p))"
          unfolding e by (simp add: relu_def)
        moreover have "map fst ?s ! p = fst (?s ! p)" using p by simp
        ultimately show ?thesis using b e by (simp only: simp_thms)
      qed
      have c5: "?row ! j * (if dead ?m' j then 1 else 0) \<le> ?row ! i * (if dead ?m' i then 1 else 0)"
        if i: "i \<in> set (map fst ?s)" and j: "j < n_dirs m" "j \<notin> set (map fst ?s)" for i j
      proof -
        have jl: "j < length ?d" using j(1) dl by simp
        from topk_sel_largest[OF i jl j(2)] have le: "?d ! j \<le> ?d ! i" .
        from i obtain v where "(i, v) \<in> set ?s" by auto
        then have "i < length ?d" using topk_sel_mem by blast
        then have "i < n_dirs m" by (simp only: dl)
        from le dn[OF this] dn[OF j(1)] show ?thesis by simp
      qed
      show ?thesis using c1 c2 c3 c4 c5 by blast
    qed
    define AI where "AI = map (\<lambda>row. map fst (?sel row)) pre"
    define AV where "AV = map (\<lambda>row. map relu (map snd (?sel row))) pre"
    have ai': "auxk_indices info = Some AI" and av': "auxk_values info = Some AV"
      using ai av by (simp_all only: AI_def AV_def)
    have lens: "length AI = length pre" "length AV = length pre"
      by (simp_all add: AI_def AV_def)
    have nthI: "map fst (?sel (pre ! r)) = AI ! r"
      and nthV: "map relu (map snd (?sel (pre ! r))) = AV ! r" if "r < length pre" for r
      using that by (simp_all add: AI_def AV_def)
    have per_row':
      "length (AI ! r) = ?w \<and> length (AV ! r) = ?w \<and> distinct (AI ! r) \<and>
       (\<forall>p<?w. AI ! r ! p < n_dirs m \<and>
           AV ! r ! p = relu (pre ! r ! (AI ! r ! p) * (if dead ?m' (AI ! r ! p) then 1 else 0)) \<and>
           (AV ! r ! p \<noteq> 0 \<longrightarrow> dead ?m' (AI ! r ! p))) \<and>
       (\<forall>i\<in>set (AI ! r). \<forall>j<n_dirs m. j \<notin> set (AI ! r) \<longrightarrow>
             pre ! r ! j * (if dead ?m' j then 1 else 0)
             \<le> pre ! r ! i * (if dead ?m' i then 1 else 0))"
      if r: "r < length pre" for r
      using per_row[OF r] unfolding nthI[OF r] nthV[OF r] .
    show ?thesis
      using ai' av' lens per_row' by blast
  qed
  show ?thesis
    apply (rule exI[of _ ?m'], rule exI[of _ recons], rule exI[of _ info])
    using fw none some by blast
qed

theorem forward_auxk_code_witness:
  "shapes_ok aux_model \<and> auxk aux_model = Some 1 \<and>
   each_row (pre_act_row aux_model) [[1]] = Some [[1, 2]] \<and>
   auxk_indices (snd (the (snd (forward aux_model [[1]])))) = Some [[0]] \<and>
   (\<exists>ai av. auxk_indices (snd (the (snd (forward aux_model [[1]])))) = Some ai \<and>
            auxk_values (snd (the (snd (forward aux_model [[1]])))) = Some av \<and>
            length (ai ! 0) = 1 \<and> length (av ! 0) = 1)"
proof -
  have h1: "shapes_ok aux_model"
    by (simp add: shapes_ok_def aux_model_def)
  have h2: "0 \<le> k aux_model" and h3: "k aux_model \<le> int (n_dirs aux_model)"
    and h4: "\<forall>a. auxk aux_model = Some a \<longrightarrow> 0 \<le> a" and a: "auxk aux_model = Some 1"
    and n: "n_dirs aux_model = 2"
    by (simp_all add: aux_model_def)
  have h5: "each_row (pre_act_row aux_model) [[1]] = Some [[1, 2]]"
    by (simp add: aux_model_def pre_act_row_def broadcast_def linear_layer_def dot_def)
  have "length (the (auxk_indices (snd (the (snd (forward aux_model [[1]])))) ) ! 0) = 1"
    by (simp add: aux_model_forward)
  moreover have "length (the (auxk_values (snd (the (snd (forward aux_model [[1]])))) ) ! 0) = 1"
    by (simp add: aux_model_forward)
  moreover from forward_auxk_code[OF h1 h2 h3 h4 h5]
  have "\<exists>ai av. auxk_indices (snd (the (snd (forward aux_model [[1]])))) = Some ai \<and>
            auxk_values (snd (the (snd (forward aux_model [[1]])))) = Some av"
    using a by fastforce
  ultimately show ?thesis using h1 a h5 by (auto simp: aux_model_forward)
qed

subsection \<open>\<^verbatim>\<open>decode_at_k\<close> and \<^verbatim>\<open>decode_clamp\<close>\<close>

lemma topk_sel_all:
  assumes "length xs \<le> n"
  shows "set (map fst (topk_sel xs n)) = {..<length xs}"
proof -
  have "set (topk_sel xs n) = set (enumerate 0 xs)"
    using assms by (simp add: topk_sel_def)
  then have "set (map fst (topk_sel xs n)) = set (map fst (enumerate 0 xs))"
    by (simp only: set_map)
  also have "\<dots> = {..<length xs}" by (simp add: atLeast0LessThan)
  finally show ?thesis .
qed

lemma sparsify_full:
  "\<exists>vals idx. sparsify v (int (length v)) = Some (vals, idx, map relu v)"
proof -
  have k0: "0 \<le> int (length v)" and kn: "int (length v) \<le> int (length v)" by simp_all
  from sparsify_Some[OF k0 kn] obtain lat where
    e: "sparsify v (int (length v)) =
          Some (map relu (map snd (topk_sel v (nat (int (length v))))),
                map fst (topk_sel v (nat (int (length v)))), lat)"
    and l: "length lat = length v"
    and p: "\<forall>j<length v. lat ! j =
             (if j \<in> set (map fst (topk_sel v (nat (int (length v))))) then relu (v ! j) else 0)"
    by blast
  have "set (map fst (topk_sel v (nat (int (length v))))) = {..<length v}"
    by (rule topk_sel_all) simp
  then have "\<forall>j<length v. lat ! j = relu (v ! j)" using p by simp
  then have "lat = map relu v" using l by (simp add: list_eq_iff_nth_eq)
  then show ?thesis using e by blast
qed

lemma relu_id: "0 \<le> e \<Longrightarrow> relu e = e"
  by (simp add: relu_def)

lemma id_model_shapes: "shapes_ok id_model"
  by (simp add: shapes_ok_def id_model_def)

text \<open>
  C5, as stated, fails when the dense vector has a negative entry: \<^verbatim>\<open>decode_at_k\<close> with the
  full width still applies \<^verbatim>\<open>F.relu\<close> to the selected values, direct dense decoding does not.
\<close>

theorem decode_at_k_full_clamps:
  "decode_at_k id_model [- 1, 2] (int (n_dirs id_model)) = Some [0, 2] \<and>
   decode_dense id_model [- 1, 2] = Some [- 1, 2]"
  by (simp add: decode_at_k_def decode_dense_def id_model_def sparsify_def topk_def topk_sel_def
      enumerate_eq_zip upt_rec relu_def broadcast_def linear_layer_def dot_def)

text \<open>
  C5, amended. For every dense latent vector \<open>v\<close> of length \<^verbatim>\<open>n_dirs\<close>,
  \<^verbatim>\<open>decode_at_k(v, n_dirs)\<close> returns the dense decoding of the non-negative clamp of \<open>v\<close>:
  the decoder applied to \<open>relu(v)\<close> plus \<^verbatim>\<open>pre_bias\<close>. It equals the dense decoding of \<open>v\<close>
  itself when no entry of \<open>v\<close> is negative.
\<close>

theorem decode_at_k_full:
  assumes "shapes_ok m" and "length v = n_dirs m"
  shows "decode_at_k m v (int (n_dirs m)) =
           Some (map2 (+) (linear_layer (decoder m) (map relu v)) (pre_bias m)) \<and>
         decode_at_k m v (int (n_dirs m)) = decode_dense m (map relu v) \<and>
         ((\<forall>e\<in>set v. 0 \<le> e) \<longrightarrow> decode_at_k m v (int (n_dirs m)) = decode_dense m v)"
proof -
  from sparsify_full[of v] obtain vals idx where
    "sparsify v (int (length v)) = Some (vals, idx, map relu v)" by blast
  then have a: "decode_at_k m v (int (n_dirs m)) = decode_dense m (map relu v)"
    using assms(2) by (simp add: decode_at_k_def)
  have b: "decode_dense m (map relu v) = Some (map2 (+) (linear_layer (decoder m) (map relu v)) (pre_bias m))"
    using decode_dense_Some[OF assms(1), of "map relu v"] assms(2) by simp
  have c: "map relu v = v" if "\<forall>e\<in>set v. 0 \<le> e"
    using that by (simp add: map_idI relu_id)
  have a': "decode_at_k m v (int (n_dirs m)) =
           Some (map2 (+) (linear_layer (decoder m) (map relu v)) (pre_bias m))"
    using a b by simp
  have d: "(\<forall>e\<in>set v. 0 \<le> e) \<longrightarrow> decode_at_k m v (int (n_dirs m)) = decode_dense m v"
    using a c by auto
  show ?thesis by (intro conjI) (rule a', rule a, rule d)
qed

theorem decode_at_k_full_witness:
  "shapes_ok id_model \<and> length [3, 0 :: real] = n_dirs id_model \<and>
   decode_at_k id_model [3, 0] (int (n_dirs id_model)) = decode_dense id_model [3, 0] \<and>
   decode_dense id_model [3, 0] = Some [3, 0]"
proof -
  have l: "length [3, 0 :: real] = n_dirs id_model" by (simp add: id_model_def)
  have d: "decode_dense id_model [3, 0] = Some [3, 0]"
    by (simp add: decode_dense_def id_model_def broadcast_def linear_layer_def dot_def)
  have nn: "\<forall>e\<in>set [3, 0 :: real]. 0 \<le> e" by simp
  from decode_at_k_full[OF id_model_shapes l] nn
  have e: "decode_at_k id_model [3, 0] (int (n_dirs id_model)) = decode_dense id_model [3, 0]"
    by blast
  show ?thesis by (intro conjI) (rule id_model_shapes, rule l, rule e, rule d)
qed

text \<open>
  C4, as stated, fails: with the clamp argument 1 the code keeps both entries of \<open>[1, 2]\<close>,
  where a sparsity budget of 1 keeps only the larger one.
\<close>

theorem decode_clamp_ignores_width:
  "decode_clamp id_model [1, 2] (Scalar 1) = Some [1, 2] \<and>
   spec_decode_clamp id_model [1, 2] 1 = Some [0, 2]"
  by (simp add: decode_clamp_def spec_decode_clamp_def times_clamp_def decode_dense_def
      id_model_def sparsify_def topk_def topk_sel_def enumerate_eq_zip upt_rec relu_def
      broadcast_def linear_layer_def dot_def)

text \<open>
  C4, amended. For every dense latent vector of length \<^verbatim>\<open>n_dirs\<close> and every clamp argument,
  \<^verbatim>\<open>decode_clamp\<close> re-selects the top \<open>min(64, n_dirs)\<close> entries of the vector
  (non-negativity-clamped), scatters them into a zero vector of length \<^verbatim>\<open>n_dirs\<close>,
  multiplies this vector elementwise by the clamp argument (a number, or a tensor of length
  \<^verbatim>\<open>n_dirs\<close>), applies the decoder and adds \<^verbatim>\<open>pre_bias\<close>. The sparsity budget is the
  constant 64; the caller's argument only rescales the selected entries.
\<close>

theorem decode_clamp_fixed_budget:
  assumes "shapes_ok m" and "length v = n_dirs m"
  shows "\<exists>vals idx lat.
     sparsify v (min 64 (int (n_dirs m))) = Some (vals, idx, lat) \<and>
     length idx = min 64 (n_dirs m) \<and> distinct idx \<and> length lat = n_dirs m \<and>
     (\<forall>j<n_dirs m. lat ! j = (if j \<in> set idx then relu (v ! j) else 0)) \<and>
     (\<forall>i\<in>set idx. \<forall>j<n_dirs m. j \<notin> set idx \<longrightarrow> v ! j \<le> v ! i) \<and>
     decode_clamp m v (Scalar c) =
       Some (map2 (+) (linear_layer (decoder m) (map (\<lambda>e. e * c) lat)) (pre_bias m)) \<and>
     (length t = n_dirs m \<longrightarrow>
        decode_clamp m v (Tensor t) =
          Some (map2 (+) (linear_layer (decoder m) (map2 (*) lat t)) (pre_bias m)))"
proof -
  let ?kk = "min 64 (int (n_dirs m))"
  let ?sel = "topk_sel v (nat ?kk)"
  have k0: "0 \<le> ?kk" and kn: "?kk \<le> int (length v)" using assms(2) by simp_all
  from sparsify_Some[OF k0 kn] obtain lat where
    e: "sparsify v ?kk = Some (map relu (map snd ?sel), map fst ?sel, lat)"
    and l: "length lat = length v"
    and p: "\<forall>j<length v. lat ! j = (if j \<in> set (map fst ?sel) then relu (v ! j) else 0)"
    by blast
  have c1: "length (map fst ?sel) = min 64 (n_dirs m)"
    using assms(2) by (simp add: topk_sel_length)
  have c2: "distinct (map fst ?sel)" by (rule topk_sel_distinct)
  have c3: "\<forall>i\<in>set (map fst ?sel). \<forall>j<n_dirs m. j \<notin> set (map fst ?sel) \<longrightarrow> v ! j \<le> v ! i"
    using topk_sel_largest[of _ v "nat ?kk"] assms(2) by metis
  have le: "length lat = length (v :: vec)" by (rule l)
  have d1: "decode_clamp m v (Scalar c) =
       Some (map2 (+) (linear_layer (decoder m) (map (\<lambda>e. e * c) lat)) (pre_bias m))"
    using e l assms(2) decode_dense_Some[OF assms(1), of "map (\<lambda>e. e * c) lat"]
    by (simp add: decode_clamp_def times_clamp_def)
  have d2: "decode_clamp m v (Tensor t) =
          Some (map2 (+) (linear_layer (decoder m) (map2 (*) lat t)) (pre_bias m))"
    if "length t = n_dirs m"
    using e l assms(2) that decode_dense_Some[OF assms(1), of "map2 (*) lat t"]
    by (simp add: decode_clamp_def times_clamp_def broadcast_same)
  show ?thesis
    using e c1 c2 c3 l p d1 d2 assms(2) by auto
qed

theorem decode_clamp_fixed_budget_witness:
  "shapes_ok id_model \<and> length [1, 2 :: real] = n_dirs id_model \<and>
   decode_clamp id_model [1, 2] (Scalar 3) = Some [3, 6] \<and>
   sparsify [1, 2] (min 64 (int (n_dirs id_model))) = Some ([2, 1], [1, 0], [1, 2])"
proof -
  have l: "length [1, 2 :: real] = n_dirs id_model" by (simp add: id_model_def)
  have s: "sparsify [1, 2] (min 64 (int (n_dirs id_model))) = Some ([2, 1], [1, 0], [1, 2])"
    by (simp add: id_model_def sparsify_def topk_def topk_sel_def enumerate_eq_zip upt_rec relu_def)
  from decode_clamp_fixed_budget[OF id_model_shapes l, of 3 "[]"] s
  have "decode_clamp id_model [1, 2] (Scalar 3) =
       Some (map2 (+) (linear_layer (decoder id_model) (map (\<lambda>e. e * 3) [1, 2])) (pre_bias id_model))"
    by auto
  then have "decode_clamp id_model [1, 2] (Scalar 3) = Some [3, 6]"
    by (simp add: id_model_def linear_layer_def dot_def)
  then show ?thesis using id_model_shapes l s by simp
qed

subsection \<open>\<^verbatim>\<open>decode_sparse\<close>\<close>

lemma scatter_returns:
  "length idx \<le> length src \<Longrightarrow> \<forall>i\<in>set idx. i < length t \<Longrightarrow>
   \<exists>r. scatter t idx src = Some r \<and> length r = length t"
  using scatter_spec[of idx src t] by blast

lemma scatter_combination:
  fixes a b :: real
  assumes "length v1 = length v2" and "length t1 = length t2"
    and "scatter t1 idx v1 = Some r1" and "scatter t2 idx v2 = Some r2"
  shows "scatter (map2 (\<lambda>x y. a * x + b * y) t1 t2) idx (map2 (\<lambda>x y. a * x + b * y) v1 v2) =
           Some (map2 (\<lambda>x y. a * x + b * y) r1 r2)"
  using assms
proof (induction idx arbitrary: t1 t2 v1 v2)
  case Nil
  then show ?case by simp
next
  case (Cons i idx)
  from Cons.prems(3) obtain x xs where v1: "v1 = x # xs" by (cases v1) auto
  from Cons.prems(4) obtain y ys where v2: "v2 = y # ys" by (cases v2) auto
  have i1: "i < length t1" using Cons.prems(3) v1 by (auto split: if_splits)
  have i2: "i < length t2" using i1 Cons.prems(2) by simp
  have s1: "scatter (t1[i := x]) idx xs = Some r1" using Cons.prems(3) v1 i1 by simp
  have s2: "scatter (t2[i := y]) idx ys = Some r2" using Cons.prems(4) v2 i2 by simp
  have len: "length xs = length ys" using Cons.prems(1) v1 v2 by simp
  have lt: "length (t1[i := x]) = length (t2[i := y])" using Cons.prems(2) by simp
  have upd: "(map2 (\<lambda>x y. a * x + b * y) t1 t2)[i := a * x + b * y] =
        map2 (\<lambda>x y. a * x + b * y) (t1[i := x]) (t2[i := y])"
    using i1 i2 Cons.prems(2) by (auto simp: list_eq_iff_nth_eq nth_list_update)
  from Cons.IH[OF len lt s1 s2] show ?case
    using v1 v2 i1 i2 upd by simp
qed

lemma dot_combination:
  fixes a b :: real
  shows "length r1 = length r2 \<Longrightarrow>
     dot row (map2 (\<lambda>x y. a * x + b * y) r1 r2) = a * dot row r1 + b * dot row r2"
proof (induction row arbitrary: r1 r2)
  case Nil
  then show ?case by (simp add: dot_def)
next
  case (Cons w row)
  show ?case
  proof (cases r1)
    case Nil
    then show ?thesis using Cons.prems by (simp add: dot_def)
  next
    case (Cons x xs)
    then obtain y ys where r2: "r2 = y # ys" using Cons.prems by (cases r2) auto
    have "length xs = length ys" using Cons.prems \<open>r1 = x # xs\<close> r2 by simp
    from Cons.IH[OF this] show ?thesis
      using \<open>r1 = x # xs\<close> r2 by (simp add: dot_def algebra_simps)
  qed
qed

lemma linear_layer_combination:
  fixes a b :: real
  assumes "length r1 = length r2"
  shows "linear_layer W (map2 (\<lambda>x y. a * x + b * y) r1 r2) =
           map2 (\<lambda>x y. a * x + b * y) (linear_layer W r1) (linear_layer W r2)"
  by (induction W) (simp_all add: linear_layer_def dot_combination[OF assms])

lemma add_sub_cancel_vec:
  fixes d :: vec
  shows "length d = length p \<Longrightarrow> map2 (-) (map2 (+) d p) p = d"
proof (induction d arbitrary: p)
  case Nil
  then show ?case by simp
next
  case (Cons x d)
  then show ?case by (cases p) auto
qed

text \<open>
  C6. For a model with its constructed shapes, every list of indices below \<^verbatim>\<open>n_dirs\<close>, all
  value vectors \<open>v1\<close>, \<open>v2\<close> of one length that covers the indices, and all scalars \<open>a\<close>,
  \<open>b\<close>: the three calls of \<^verbatim>\<open>decode_sparse\<close> return, and
  \<open>decode_sparse(indices, a v1 + b v2) - pre_bias\<close> equals
  \<open>a (decode_sparse(indices, v1) - pre_bias) + b (decode_sparse(indices, v2) - pre_bias)\<close>.
\<close>

theorem decode_sparse_affine:
  assumes "shapes_ok m" and "length v1 = length v2"
    and "length idx \<le> length v1" and "\<forall>i\<in>set idx. i < n_dirs m"
  shows "\<exists>r r1 r2.
     decode_sparse m idx v1 = Some r1 \<and> decode_sparse m idx v2 = Some r2 \<and>
     decode_sparse m idx (map2 (\<lambda>x y. a * x + b * y) v1 v2) = Some r \<and>
     map2 (-) r (pre_bias m) =
       map2 (\<lambda>x y. a * x + b * y) (map2 (-) r1 (pre_bias m)) (map2 (-) r2 (pre_bias m))"
proof -
  let ?z = "replicate (n_dirs m) (0 :: real)"
  let ?lin = "\<lambda>u w. map2 (\<lambda>x y. a * x + b * y) u w"
  have b: "\<forall>i\<in>set idx. i < length ?z" using assms(4) by simp
  from scatter_returns[OF assms(3) b] obtain l1 where
    l1: "scatter ?z idx v1 = Some l1" "length l1 = n_dirs m" by auto
  have "length idx \<le> length v2" using assms(2,3) by simp
  from scatter_returns[OF this b] obtain l2 where
    l2: "scatter ?z idx v2 = Some l2" "length l2 = n_dirs m" by auto
  have zz: "?lin ?z ?z = ?z"
    by (simp add: list_eq_iff_nth_eq)
  have "scatter (?lin ?z ?z) idx (?lin v1 v2) = Some (?lin l1 l2)"
    by (rule scatter_combination[OF assms(2) _ l1(1) l2(1)]) simp
  then have l: "scatter ?z idx (?lin v1 v2) = Some (?lin l1 l2)" by (simp only: zz)
  have ll: "length (?lin l1 l2) = n_dirs m" using l1(2) l2(2) by simp
  let ?d = "\<lambda>u. linear_layer (decoder m) u"
  have dl: "length (?d u) = length (pre_bias m)" for u
    using assms(1) by (simp add: shapes_ok_def linear_layer_def)
  have r1: "decode_sparse m idx v1 = Some (map2 (+) (?d l1) (pre_bias m))"
    using l1 decode_dense_Some[OF assms(1) l1(2)] by (simp add: decode_sparse_def)
  have r2: "decode_sparse m idx v2 = Some (map2 (+) (?d l2) (pre_bias m))"
    using l2 decode_dense_Some[OF assms(1) l2(2)] by (simp add: decode_sparse_def)
  have r: "decode_sparse m idx (?lin v1 v2) = Some (map2 (+) (?d (?lin l1 l2)) (pre_bias m))"
    using l decode_dense_Some[OF assms(1) ll] by (simp add: decode_sparse_def)
  have "length l1 = length l2" using l1(2) l2(2) by simp
  then have lc: "?d (?lin l1 l2) = ?lin (?d l1) (?d l2)" by (rule linear_layer_combination)
  have c: "map2 (-) (map2 (+) (?d u) (pre_bias m)) (pre_bias m) = ?d u" for u
    by (rule add_sub_cancel_vec[OF dl])
  have eq: "map2 (-) (map2 (+) (?d (?lin l1 l2)) (pre_bias m)) (pre_bias m) =
      ?lin (map2 (-) (map2 (+) (?d l1) (pre_bias m)) (pre_bias m))
           (map2 (-) (map2 (+) (?d l2) (pre_bias m)) (pre_bias m))"
    unfolding c by (rule lc)
  show ?thesis using r1 r2 r eq by blast
qed

theorem decode_sparse_affine_witness:
  "shapes_ok id_model \<and>
   decode_sparse id_model [1] [3] = Some [0, 3] \<and> decode_sparse id_model [1] [5] = Some [0, 5] \<and>
   decode_sparse id_model [1] (map2 (\<lambda>x y. 2 * x + 1 * y) [3] [5]) = Some [0, 11]"
proof -
  have h2: "length [3 :: real] = length [5 :: real]" and h3: "length [1 :: nat] \<le> length [3 :: real]"
    and h4: "\<forall>i\<in>set [1 :: nat]. i < n_dirs id_model"
    by (simp_all add: id_model_def)
  have e1: "decode_sparse id_model [1] [3] = Some [0, 3]"
    and e2: "decode_sparse id_model [1] [5] = Some [0, 5]"
    by (simp_all add: decode_sparse_def decode_dense_def id_model_def broadcast_def
        linear_layer_def dot_def eval_nat_numeral)
  from decode_sparse_affine[OF id_model_shapes h2 h3 h4, of 2 1] obtain r where
    r: "decode_sparse id_model [1] (map2 (\<lambda>x y. 2 * x + 1 * y) [3] [5]) = Some r"
    and "map2 (-) r (pre_bias id_model) =
       map2 (\<lambda>x y. 2 * x + 1 * y) (map2 (-) [0, 3] (pre_bias id_model))
         (map2 (-) [0, 5] (pre_bias id_model))"
    using e1 e2 by auto
  then have "map2 (-) r [0, 0] = [0, 11]" by (simp add: id_model_def)
  moreover have "length r = 2"
    using r by (auto simp: decode_sparse_def decode_dense_def id_model_def broadcast_def
        linear_layer_def split: option.splits if_splits)
  ultimately have "r = [0, 11]"
    by (cases r; cases "tl r") auto
  then show ?thesis using id_model_shapes e1 e2 r by simp
qed

subsection \<open>Chunked activations\<close>

lemma each_row_append:
  "each_row f (a @ b) =
     (case each_row f a of None \<Rightarrow> None
      | Some ya \<Rightarrow> (case each_row f b of None \<Rightarrow> None | Some yb \<Rightarrow> Some (ya @ yb)))"
  by (induction a) (auto split: option.splits)

lemma each_row_map: "each_row f (map h xs) = each_row (\<lambda>x. f (h x)) xs"
  by (induction xs) (auto split: option.splits)

lemma py_range_0: "py_range 0 s = []"
  by (cases "s = 0") (simp_all add: py_range_def)

lemma py_range_step:
  assumes "0 < n" and "0 < s"
  shows "py_range n s = 0 # map (\<lambda>i. i + s) (py_range (n - s) s)"
proof -
  have s0: "s \<noteq> 0" using assms(2) by simp
  have "n + s - 1 = (n - 1) + s" using assms(1) by arith
  then have "(n + s - 1) div s = ((n - 1) + s) div s" by (rule arg_cong)
  also have "\<dots> = (n - 1) div s + 1" using s0 by (rule div_add_self2)
  finally have a: "(n + s - 1) div s = Suc ((n - 1) div s)" by (simp only: Suc_eq_plus1)
  have b: "(n - s + s - 1) div s = (n - 1) div s"
  proof (cases "s \<le> n")
    case True
    then have "n - s + s - 1 = n - 1" by arith
    then show ?thesis by (rule arg_cong)
  next
    case False
    then have e: "n - s + s - 1 = s - 1" by arith
    have "n - 1 < s" "s - 1 < s" using False assms by arith+
    then have "(s - 1) div s = 0" "(n - 1) div s = 0" by (simp_all only: div_less)
    then show ?thesis by (simp only: e)
  qed
  have u: "[0..<Suc q] = 0 # map Suc [0..<q]" for q
  proof -
    have "[0..<Suc q] = 0 # [Suc 0..<Suc q]" by (rule upt_conv_Cons) (rule zero_less_Suc)
    then show ?thesis by (simp only: map_Suc_upt)
  qed
  have "map (\<lambda>j. j * s) [0..<Suc q] = 0 # map (\<lambda>i. i + s) (map (\<lambda>j. j * s) [0..<q])" for q
    unfolding u by (simp add: comp_def del: upt_Suc)
  then show ?thesis by (simp only: py_range_def a b)
qed

lemma chunks_concat:
  assumes "0 < s"
  shows "(case each_row (\<lambda>i. each_row f (take s (drop i x))) (py_range (length x) s) of
            None \<Rightarrow> None | Some cs \<Rightarrow> Some (concat cs)) = each_row f x"
proof (induction x rule: length_induct)
  case (1 x)
  show ?case
  proof (cases "x = []")
    case True
    then show ?thesis by (simp add: py_range_0)
  next
    case False
    then have n: "0 < length x" by simp
    let ?y = "drop s x"
    have "length ?y < length x" using n assms by simp
    then have ih: "(case each_row (\<lambda>i. each_row f (take s (drop i ?y))) (py_range (length ?y) s) of
            None \<Rightarrow> None | Some cs \<Rightarrow> Some (concat cs)) = each_row f ?y"
      by (rule 1[rule_format])
    have r: "py_range (length x) s = 0 # map (\<lambda>i. i + s) (py_range (length ?y) s)"
      using py_range_step[OF n assms] by simp
    define T where "T = each_row (\<lambda>i. each_row f (take s (drop i ?y))) (py_range (length ?y) s)"
    define H where "H = each_row f (take s x)"
    have ih': "each_row f ?y = (case T of None \<Rightarrow> None | Some cs \<Rightarrow> Some (concat cs))"
      using ih by (simp only: T_def)
    have t: "each_row (\<lambda>i. each_row f (take s (drop i x))) (map (\<lambda>i. i + s) (py_range (length ?y) s)) = T"
      unfolding T_def by (simp add: each_row_map add.commute)
    have lhs: "each_row (\<lambda>i. each_row f (take s (drop i x))) (py_range (length x) s) =
        (case H of None \<Rightarrow> None
         | Some h \<Rightarrow> (case T of None \<Rightarrow> None | Some cs \<Rightarrow> Some (h # cs)))"
      unfolding r H_def by (simp only: each_row.simps t drop_0)
    have "each_row f x = each_row f (take s x @ ?y)" by simp
    also have "\<dots> = (case H of None \<Rightarrow> None
        | Some ya \<Rightarrow> (case each_row f ?y of None \<Rightarrow> None | Some yb \<Rightarrow> Some (ya @ yb)))"
      unfolding H_def by (rule each_row_append)
    finally have e: "each_row f x = (case H of None \<Rightarrow> None
        | Some ya \<Rightarrow> (case each_row f ?y of None \<Rightarrow> None | Some yb \<Rightarrow> Some (ya @ yb)))" .
    show ?thesis
      unfolding lhs e ih' by (cases H; cases T) simp_all
  qed
qed

lemma py_range_nonempty: "0 < n \<Longrightarrow> 0 < s \<Longrightarrow> py_range n s \<noteq> []"
  using py_range_step[of n s] by simp

lemma compute_activations_eq:
  assumes "0 < c"
  shows "compute_activations m x c = (if x = [] then None else each_row (activations_row m) x)"
proof (cases "x = []")
  case True
  then show ?thesis using assms by (simp add: compute_activations_def py_range_0 vstack_def)
next
  case False
  let ?g = "\<lambda>i. activations_chunk m (take (nat c) (drop i x))"
  have s: "0 < nat c" using assms by simp
  have cc: "(case each_row ?g (py_range (length x) (nat c)) of
            None \<Rightarrow> None | Some cs \<Rightarrow> Some (concat cs)) = each_row (activations_row m) x"
    unfolding activations_chunk_def by (rule chunks_concat[OF s])
  have ne: "cs \<noteq> []" if "each_row ?g (py_range (length x) (nat c)) = Some cs" for cs
  proof -
    have "length cs = length (py_range (length x) (nat c))" using that by (rule each_row_length)
    moreover have "py_range (length x) (nat c) \<noteq> []"
      using False s by (simp add: py_range_nonempty)
    ultimately show ?thesis by auto
  qed
  have "compute_activations m x c =
      (case each_row ?g (py_range (length x) (nat c)) of None \<Rightarrow> None | Some cs \<Rightarrow> Some (concat cs))"
    using assms ne by (auto simp: compute_activations_def vstack_def split: option.splits)
  then show ?thesis using cc False by simp
qed

lemma activations_rows:
  "each_row (pre_act_row m) x = Some pre \<Longrightarrow>
   each_row (activations_row m) x = Some (map (map relu) pre)"
proof (induction x arbitrary: pre)
  case Nil
  then show ?case by simp
next
  case (Cons r x)
  then show ?case by (auto simp: activations_row_def split: option.splits)
qed

text \<open>
  C7. For every model, every input collection and every pair of positive chunk sizes,
  \<^verbatim>\<open>compute_activations\<close> gives the same result: for a non-empty collection it is the list,
  in the order of the items, of the non-negativity-clamped encoder outputs of the rows (or
  the exception of a row the encoder rejects), whatever the chunk size; in particular 1000
  items give the same matrix with chunk size 100 as with chunk size 1000.
\<close>

theorem compute_activations_chunk_independent:
  assumes "0 < c1" and "0 < c2"
  shows "compute_activations m x c1 = compute_activations m x c2 \<and>
         (x \<noteq> [] \<longrightarrow> compute_activations m x c1 = each_row (activations_row m) x) \<and>
         (x \<noteq> [] \<and> each_row (pre_act_row m) x = Some pre \<longrightarrow>
            compute_activations m x c1 = Some (map (map relu) pre)) \<and>
         (length x = 1000 \<longrightarrow> compute_activations m x 100 = compute_activations m x 1000)"
proof -
  have a: "compute_activations m x c1 = compute_activations m x c2"
    using assms by (simp add: compute_activations_eq)
  have b: "x \<noteq> [] \<longrightarrow> compute_activations m x c1 = each_row (activations_row m) x"
    using assms(1) by (simp add: compute_activations_eq)
  have c: "x \<noteq> [] \<and> each_row (pre_act_row m) x = Some pre \<longrightarrow>
            compute_activations m x c1 = Some (map (map relu) pre)"
    using assms(1) by (simp add: compute_activations_eq activations_rows)
  have d: "compute_activations m x 100 = compute_activations m x 1000"
    by (simp add: compute_activations_eq)
  show ?thesis using a b c d by blast
qed

theorem compute_activations_chunk_independent_witness:
  "(0 :: int) < 1 \<and> (0 :: int) < 2 \<and>
   compute_activations id_model [[1, - 2], [3, 4], [- 5, 6]] 1 =
     compute_activations id_model [[1, - 2], [3, 4], [- 5, 6]] 2 \<and>
   compute_activations id_model [[1, - 2], [3, 4], [- 5, 6]] 2 = Some [[1, 0], [3, 4], [0, 6]]"
proof -
  have h1: "(0 :: int) < 1" and h2: "(0 :: int) < 2" by simp_all
  have r: "py_range (length [[1, - 2], [3, 4], [- 5, 6 :: real]]) (nat 2) = [0, 2]"
    by code_simp
  have e: "compute_activations id_model [[1, - 2], [3, 4], [- 5, 6]] 2 = Some [[1, 0], [3, 4], [0, 6]]"
    unfolding compute_activations_def r
    by (simp add: activations_chunk_def activations_row_def
        pre_act_row_def broadcast_def linear_layer_def dot_def id_model_def vstack_def relu_def)
  from compute_activations_chunk_independent[OF h1 h2, of id_model "[[1, - 2], [3, 4], [- 5, 6]]"]
  have "compute_activations id_model [[1, - 2], [3, 4], [- 5, 6]] 1 =
     compute_activations id_model [[1, - 2], [3, 4], [- 5, 6]] 2" by blast
  then show ?thesis using e by simp
qed

subsection \<open>Per-neuron ranking\<close>

lemma argsort_pairs:
  "map (\<lambda>i. col ! i) (map fst (sort_key snd (enumerate 0 col))) =
   map snd (sort_key snd (enumerate 0 col))"
proof -
  have "col ! fst p = snd p" if "p \<in> set (sort_key snd (enumerate 0 col))" for p
  proof -
    from that have "(fst p, snd p) \<in> set (enumerate 0 col)" by simp
    then show ?thesis by (simp add: in_set_enumerate_eq)
  qed
  then show ?thesis by (simp add: comp_def)
qed

lemma top_by_argsort:
  fixes col :: vec
  assumes "0 < kk" and "kk \<le> int (length col)"
  defines "I \<equiv> rev (slice_from_minus (argsort col) kk)"
  shows "length I = nat kk" and "distinct I" and "\<forall>i\<in>set I. i < length col"
    and "sorted_wrt (\<ge>) (map (\<lambda>i. col ! i) I)"
    and "\<forall>i\<in>set I. \<forall>j<length col. j \<notin> set I \<longrightarrow> col ! j \<le> col ! i"
proof -
  let ?s = "sort_key snd (enumerate 0 col)"
  let ?d = "length col - nat kk"
  have la: "length (argsort col) = length col" by (simp add: argsort_def)
  have I: "I = rev (drop ?d (map fst ?s))"
    using assms(1) by (simp add: I_def slice_from_minus_def argsort_def)
  show "length I = nat kk" using assms(1,2) by (simp add: I)
  have "distinct (map fst (enumerate 0 col))" by simp
  then have ds: "distinct (map fst ?s)" unfolding distinct_map by simp
  then show "distinct I" by (simp add: I)
  have mem: "i < length col" if "i \<in> set (map fst ?s)" for i
  proof -
    from that obtain v where "(i, v) \<in> set (enumerate 0 col)" by auto
    then show ?thesis by (simp add: in_set_enumerate_eq)
  qed
  show "\<forall>i\<in>set I. i < length col"
    using mem by (auto simp: I dest: in_set_dropD)
  have srt: "sorted (map snd ?s)" by (rule sorted_sort_key)
  have vals: "map (\<lambda>i. col ! i) I = rev (drop ?d (map snd ?s))"
    unfolding I by (simp only: rev_map[symmetric] drop_map[symmetric] argsort_pairs)
  have "sorted (drop ?d (map snd ?s))" using srt by (rule sorted_wrt_drop)
  then show "sorted_wrt (\<ge>) (map (\<lambda>i. col ! i) I)"
    unfolding vals by (simp only: sorted_wrt_rev)
  show "\<forall>i\<in>set I. \<forall>j<length col. j \<notin> set I \<longrightarrow> col ! j \<le> col ! i"
  proof (intro ballI allI impI)
    fix i j assume i: "i \<in> set I" and j: "j < length col" and nj: "j \<notin> set I"
    from i obtain p where p: "p \<in> set (drop ?d ?s)" "fst p = i"
      by (auto simp: I drop_map)
    have "(j, col ! j) \<in> set (enumerate 0 col)" using j by (simp add: in_set_enumerate_eq)
    then have "(j, col ! j) \<in> set ?s" by simp
    then have "(j, col ! j) \<in> set (take ?d ?s) \<union> set (drop ?d ?s)"
      by (simp only: set_append[symmetric] append_take_drop_id)
    moreover have "(j, col ! j) \<notin> set (drop ?d ?s)"
      using nj by (force simp: I drop_map)
    ultimately have q: "(j, col ! j) \<in> set (take ?d ?s)" by blast
    have "sorted (map snd (take ?d ?s @ drop ?d ?s))" using srt by simp
    then have "\<forall>a\<in>set (take ?d ?s). \<forall>b\<in>set (drop ?d ?s). snd a \<le> snd b"
      unfolding map_append sorted_append by auto
    with p(1) q have "col ! j \<le> snd p" by fastforce
    moreover have "snd p = col ! i"
    proof -
      have "(fst p, snd p) \<in> set (enumerate 0 col)" using p(1) by (auto dest: in_set_dropD)
      then show ?thesis using p(2) by (simp add: in_set_enumerate_eq)
    qed
    ultimately show "col ! j \<le> col ! i" by simp
  qed
qed

text \<open>
  C10, as stated, fails for a model whose sparsity hyperparameter \<open>k\<close> is 0, which the
  constructor accepts: \<open>min(k, num_items)\<close> is 0, the slice \<^verbatim>\<open>[-0:]\<close> is the whole array, and
  each latent dimension gets all three items of a collection of three, not none.
\<close>

theorem get_topk_activations_k0_all_items:
  "k k0_model = 0 \<and> nat (min (k k0_model) (int (length [[1, - 2], [3, 4], [- 5, 6 :: real]]))) = 0 \<and>
   get_topk_activations k0_model [[1, - 2], [3, 4], [- 5, 6]] 2 =
     Some ([[1, 0, 2], [2, 1, 0]], [[3, 1, 0], [6, 4, 0]])"
proof -
  have r: "py_range (length [[1, - 2], [3, 4], [- 5, 6 :: real]]) (nat 2) = [0, 2]"
    by code_simp
  have ca: "compute_activations k0_model [[1, - 2], [3, 4], [- 5, 6]] 2 = Some [[1, 0], [3, 4], [0, 6]]"
    unfolding compute_activations_def r
    by (simp add: activations_chunk_def activations_row_def
        pre_act_row_def broadcast_def linear_layer_def dot_def k0_model_def vstack_def relu_def)
  have e: "get_topk_activations k0_model [[1, - 2], [3, 4], [- 5, 6]] 2 =
     Some ([[1, 0, 2], [2, 1, 0]], [[3, 1, 0], [6, 4, 0]])"
    unfolding get_topk_activations_def ca
    by (simp add: neuron_topk_def column_def argsort_def slice_from_minus_def k0_model_def
        enumerate_eq_zip upt_rec)
  show ?thesis using e by (simp add: k0_model_def)
qed

text \<open>
  C10, amended. For a model with its constructed shapes whose sparsity hyperparameter \<open>k\<close> is
  at least 1, a positive chunk size and every non-empty input collection whose rows the
  encoder accepts, \<^verbatim>\<open>get_topk_activations\<close> returns one list of item indices and one list of
  values for each of the \<^verbatim>\<open>n_dirs\<close> latent dimensions; each has exactly \<open>min(k, num_items)\<close>
  entries, where \<open>k\<close> is the sparsity hyperparameter of the model; the indices are distinct
  items, the values are the activations of these items in that dimension, in descending
  order, and no item left out has a larger activation than a listed one.
\<close>

theorem get_topk_activations_ranking:
  assumes "shapes_ok m" and "0 < k m" and "0 < bs" and "x \<noteq> []"
    and "each_row (pre_act_row m) x = Some pre"
  shows "\<exists>I V.
     get_topk_activations m x bs = Some (I, V) \<and> length I = n_dirs m \<and> length V = n_dirs m \<and>
     (\<forall>j<n_dirs m.
        length (I ! j) = nat (min (k m) (int (length x))) \<and>
        length (V ! j) = nat (min (k m) (int (length x))) \<and>
        distinct (I ! j) \<and> (\<forall>i\<in>set (I ! j). i < length x) \<and>
        V ! j = map (\<lambda>i. relu (pre ! i ! j)) (I ! j) \<and>
        sorted_wrt (\<ge>) (V ! j) \<and>
        (\<forall>i\<in>set (I ! j). \<forall>i'<length x. i' \<notin> set (I ! j) \<longrightarrow>
            relu (pre ! i' ! j) \<le> relu (pre ! i ! j)))"
proof -
  let ?A = "map (map relu) pre"
  let ?kk = "min (k m) (int (length x))"
  let ?col = "\<lambda>j. map (\<lambda>row. row ! j) ?A"
  let ?I = "\<lambda>j. rev (slice_from_minus (argsort (?col j)) ?kk)"
  let ?V = "\<lambda>j. map (\<lambda>i. ?col j ! i) (?I j)"
  have ca: "compute_activations m x bs = Some ?A"
    using assms(3,4) activations_rows[OF assms(5)] by (simp add: compute_activations_eq)
  have lp: "length pre = length x" using assms(5) by (rule each_row_length)
  have rows: "\<forall>row\<in>set pre. length row = n_dirs m"
    using pre_rows_length[OF assms(1,5)] by blast
  have cl: "length (?col j) = length x" for j using lp by simp
  have k0: "0 < ?kk" using assms(2,4) by simp
  have kl: "?kk \<le> int (length (?col j))" for j using lp by simp
  have cn: "?col j ! i = relu (pre ! i ! j)" if "i < length x" "j < n_dirs m" for i j
  proof -
    have "pre ! i \<in> set pre" using that(1) lp by simp
    then have "j < length (pre ! i)" using rows that(2) by simp
    then show ?thesis using that(1) lp by simp
  qed
  have nt: "neuron_topk m ?A j = Some (?I j, ?V j)" if "j \<in> set [0..<n_dirs m]" for j
  proof -
    have "list_all (\<lambda>row. j < length row) ?A"
      using rows that by (simp add: list_all_iff)
    then have "column ?A j = Some (?col j)" by (simp add: column_def)
    then show ?thesis using lp by (simp add: neuron_topk_def Let_def)
  qed
  then have er: "each_row (neuron_topk m ?A) [0..<n_dirs m] =
      Some (map (\<lambda>j. (?I j, ?V j)) [0..<n_dirs m])"
    by (rule each_row_total)
  define I where "I = map ?I [0..<n_dirs m]"
  define V where "V = map ?V [0..<n_dirs m]"
  have g: "get_topk_activations m x bs = Some (I, V)"
    using ca er by (simp add: get_topk_activations_def I_def V_def comp_def)
  have lI: "length I = n_dirs m" and lV: "length V = n_dirs m" by (simp_all add: I_def V_def)
  have per:
    "length (I ! j) = nat ?kk \<and> length (V ! j) = nat ?kk \<and> distinct (I ! j) \<and>
     (\<forall>i\<in>set (I ! j). i < length x) \<and>
     V ! j = map (\<lambda>i. relu (pre ! i ! j)) (I ! j) \<and> sorted_wrt (\<ge>) (V ! j) \<and>
     (\<forall>i\<in>set (I ! j). \<forall>i'<length x. i' \<notin> set (I ! j) \<longrightarrow>
         relu (pre ! i' ! j) \<le> relu (pre ! i ! j))"
    if j: "j < n_dirs m" for j
  proof -
    have Ij: "I ! j = ?I j" and Vj: "V ! j = ?V j" using j by (simp_all add: I_def V_def)
    note t = top_by_argsort[OF k0 kl[of j]]
    have c1: "length (I ! j) = nat ?kk" unfolding Ij by (rule t(1))
    have c3: "distinct (I ! j)" unfolding Ij by (rule t(2))
    have c4: "\<forall>i\<in>set (I ! j). i < length x" unfolding Ij using t(3) by (simp only: cl)
    have c2: "length (V ! j) = nat ?kk" unfolding Vj using t(1) by simp
    have c5: "V ! j = map (\<lambda>i. relu (pre ! i ! j)) (I ! j)"
      unfolding Vj Ij[symmetric] using c4 cn j by simp
    have c6: "sorted_wrt (\<ge>) (V ! j)" unfolding Vj by (rule t(4))
    have c7: "\<forall>i\<in>set (I ! j). \<forall>i'<length x. i' \<notin> set (I ! j) \<longrightarrow>
         relu (pre ! i' ! j) \<le> relu (pre ! i ! j)"
    proof (intro ballI allI impI)
      fix i i' assume a: "i \<in> set (I ! j)" "i' < length x" "i' \<notin> set (I ! j)"
      have il: "i < length x" using c4 a(1) by blast
      have "i' < length (?col j)" using a(2) by (simp only: cl)
      with t(5) a(1,3) have "?col j ! i' \<le> ?col j ! i" unfolding Ij by blast
      then show "relu (pre ! i' ! j) \<le> relu (pre ! i ! j)"
        by (simp only: cn[OF il j] cn[OF a(2) j])
    qed
    show ?thesis using c1 c2 c3 c4 c5 c6 c7 by blast
  qed
  show ?thesis using g lI lV per by blast
qed

theorem get_topk_activations_ranking_witness:
  "shapes_ok id_model \<and> 0 < k id_model \<and>
   get_topk_activations id_model [[1, - 2], [3, 4], [- 5, 6]] 2 =
     Some ([[1], [2]], [[3], [6]])"
proof -
  have h2: "0 < k id_model" by (simp add: id_model_def)
  have h3: "(0 :: int) < 2" by simp
  have h4: "[[1, - 2], [3, 4], [- 5, 6 :: real]] \<noteq> []" by simp
  have h5: "each_row (pre_act_row id_model) [[1, - 2], [3, 4], [- 5, 6]] =
      Some [[1, - 2], [3, 4], [- 5, 6]]"
    by (simp add: pre_act_row_def broadcast_def linear_layer_def dot_def id_model_def)
  have r: "py_range (length [[1, - 2], [3, 4], [- 5, 6 :: real]]) (nat 2) = [0, 2]"
    by code_simp
  have ca: "compute_activations id_model [[1, - 2], [3, 4], [- 5, 6]] 2 = Some [[1, 0], [3, 4], [0, 6]]"
    unfolding compute_activations_def r
    by (simp add: activations_chunk_def activations_row_def
        pre_act_row_def broadcast_def linear_layer_def dot_def id_model_def vstack_def relu_def)
  have e: "get_topk_activations id_model [[1, - 2], [3, 4], [- 5, 6]] 2 =
     Some ([[1], [2]], [[3], [6]])"
    unfolding get_topk_activations_def ca
    by (simp add: neuron_topk_def column_def argsort_def slice_from_minus_def id_model_def
        enumerate_eq_zip upt_rec)
  from get_topk_activations_ranking[OF id_model_shapes h2 h3 h4 h5] obtain I V where
    "get_topk_activations id_model [[1, - 2], [3, 4], [- 5, 6]] 2 = Some (I, V)" by blast
  then show ?thesis using e id_model_shapes h2 by simp
qed

subsection \<open>Decoder normalisation\<close>

lemma unit_norm_weight_nth:
  assumes "row \<in> set W" and "j < length row"
  shows "map (\<lambda>(j, x). fdiv x (column_norm W j)) (enumerate 0 row) ! j =
           fdiv (row ! j) (column_norm W j)"
  using assms(2) by (simp add: nth_enumerate_eq)

lemma sum_squares_divide:
  fixes c :: real
  shows "sum_list (map (\<lambda>row. (f row / c)\<^sup>2) W) = sum_list (map (\<lambda>row. (f row)\<^sup>2) W) / c\<^sup>2"
  by (induction W) (simp_all add: power_divide add_divide_distrib)

lemma sum_squares_nonneg:
  fixes f :: "'a \<Rightarrow> real"
  shows "0 \<le> sum_list (map (\<lambda>row. (f row)\<^sup>2) W)"
  by (induction W) simp_all

lemma column_unit:
  assumes rows: "\<forall>row\<in>set W. j < length row" and nz: "column_norm W j \<noteq> 0"
  shows "column_norm_opt (unit_norm_weight W) j = Some 1"
proof -
  let ?c = "column_norm W j"
  let ?S = "sum_list (map (\<lambda>row. (row ! j)\<^sup>2) W)"
  have ent: "map (\<lambda>(j, x). fdiv x (column_norm W j)) (enumerate 0 row) ! j = Some (row ! j / ?c)"
    if "row \<in> set W" for row
    using unit_norm_weight_nth[OF that] rows that nz by (simp add: fdiv_def)
  have all: "list_all (\<lambda>row. row ! j \<noteq> None) (unit_norm_weight W)"
    using ent by (simp add: unit_norm_weight_def list_all_iff)
  have "map (\<lambda>row. (the (row ! j))\<^sup>2) (unit_norm_weight W) = map (\<lambda>row. (row ! j / ?c)\<^sup>2) W"
    using ent by (simp add: unit_norm_weight_def comp_def)
  then have "sum_list (map (\<lambda>row. (the (row ! j))\<^sup>2) (unit_norm_weight W)) = ?S / ?c\<^sup>2"
    by (simp only: sum_squares_divide)
  moreover have c2: "?c\<^sup>2 = ?S"
    unfolding column_norm_def using sum_squares_nonneg[of "\<lambda>row. row ! j" W] by simp
  moreover have "?S \<noteq> 0" using nz c2 by auto
  ultimately have "sum_list (map (\<lambda>row. (the (row ! j))\<^sup>2) (unit_norm_weight W)) = 1"
    by simp
  then show ?thesis using all by (simp add: column_norm_opt_def)
qed

lemma zero_column_shapes: "shapes_ok zero_column_model"
  by (simp add: shapes_ok_def zero_column_model_def)

text \<open>
  C9, as stated, fails for a decoder weight with a zero column: the norm of the column is 0,
  the division leaves no finite number in it, and its norm afterwards is not 1.
\<close>

theorem unit_norm_zero_column:
  "shapes_ok zero_column_model \<and>
   column_norm_opt (unit_norm_weight (decoder zero_column_model)) 0 = None \<and>
   unit_norm_decoder zero_column_model = None"
  by (simp add: zero_column_shapes)
     (simp add: zero_column_model_def column_norm_opt_def unit_norm_weight_def column_norm_def
       fdiv_def unit_norm_decoder_def enumerate_eq_zip upt_rec)

text \<open>
  C9, amended. The decoder weight is stored with \<^verbatim>\<open>d_model\<close> rows and \<^verbatim>\<open>n_dirs\<close> columns, one
  column per latent dimension. After \<^verbatim>\<open>unit_norm_decoder_\<close> every column whose Euclidean norm
  was not zero has Euclidean norm 1 (exactly, over the reals); when no column has norm zero
  the update succeeds in place, changes no other field and leaves every column with norm 1.
\<close>

theorem unit_norm_decoder_columns:
  assumes "shapes_ok m"
  shows "(\<forall>j<n_dirs m. column_norm (decoder m) j \<noteq> 0 \<longrightarrow>
            column_norm_opt (unit_norm_weight (decoder m)) j = Some 1) \<and>
         ((\<forall>j<n_dirs m. column_norm (decoder m) j \<noteq> 0) \<longrightarrow>
            (\<exists>m'. unit_norm_decoder m = Some m' \<and> m' = m\<lparr>decoder := decoder m'\<rparr> \<and>
                  shapes_ok m' \<and> (\<forall>j<n_dirs m. column_norm (decoder m') j = 1)))"
proof -
  let ?W = "decoder m"
  let ?U = "unit_norm_weight ?W"
  have rows: "\<forall>row\<in>set ?W. length row = n_dirs m"
    using assms by (simp add: shapes_ok_def list_all_iff)
  have one: "column_norm_opt ?U j = Some 1" if "j < n_dirs m" "column_norm ?W j \<noteq> 0" for j
    using column_unit[of ?W j] rows that by simp
  have two: "\<exists>m'. unit_norm_decoder m = Some m' \<and> m' = m\<lparr>decoder := decoder m'\<rparr> \<and>
                  shapes_ok m' \<and> (\<forall>j<n_dirs m. column_norm (decoder m') j = 1)"
    if nz: "\<forall>j<n_dirs m. column_norm ?W j \<noteq> 0"
  proof -
    have fin: "list_all (list_all (\<lambda>e. e \<noteq> None)) ?U"
    proof -
      have "e \<noteq> None"
        if "row \<in> set ?W" "e \<in> set (map (\<lambda>(j, x). fdiv x (column_norm ?W j)) (enumerate 0 row))"
        for row e
      proof -
        from that(2) obtain j x where jx: "(j, x) \<in> set (enumerate 0 row)"
          "e = fdiv x (column_norm ?W j)" by auto
        then have "j < length row" by (simp add: in_set_enumerate_eq)
        then have "j < n_dirs m" using rows that(1) by simp
        then show ?thesis using nz jx(2) by (simp add: fdiv_def)
      qed
      then show ?thesis by (auto simp: unit_norm_weight_def list_all_iff)
    qed
    let ?m' = "m\<lparr>decoder := map (map the) ?U\<rparr>"
    have u: "unit_norm_decoder m = Some ?m'"
      using fin by (simp add: unit_norm_decoder_def Let_def)
    have sh: "shapes_ok ?m'"
      using assms by (simp add: shapes_ok_def unit_norm_weight_def list_all_iff)
    have cn: "column_norm (map (map the) ?U) j = 1" if j: "j < n_dirs m" for j
    proof -
      have o: "column_norm_opt ?U j = Some 1" using one[OF j] nz j by simp
      then have al: "list_all (\<lambda>row. row ! j \<noteq> None) ?U"
        by (simp add: column_norm_opt_def split: if_splits)
      have e3: "map (\<lambda>row. (row ! j)\<^sup>2) (map (map the) ?U) = map (\<lambda>row. (the (row ! j))\<^sup>2) ?U"
      proof -
        have "length row = n_dirs m" if "row \<in> set ?U" for row
          using that rows by (auto simp: unit_norm_weight_def)
        then show ?thesis using j by (simp add: comp_def)
      qed
      have "column_norm (map (map the) ?U) j = sqrt (sum_list (map (\<lambda>row. (the (row ! j))\<^sup>2) ?U))"
        unfolding column_norm_def by (simp only: e3)
      also have "Some \<dots> = column_norm_opt ?U j"
        using al by (simp only: column_norm_opt_def if_True)
      finally have "Some (column_norm (map (map the) ?U) j) = Some 1" using o by simp
      then show ?thesis by simp
    qed
    show ?thesis using u sh cn by (intro exI[of _ ?m']) simp
  qed
  show ?thesis using one two by blast
qed

theorem unit_norm_decoder_columns_witness:
  "shapes_ok zero_column_model \<and> column_norm (decoder zero_column_model) 1 = 5 \<and>
   column_norm_opt (unit_norm_weight (decoder zero_column_model)) 1 = Some 1"
proof -
  have "sqrt 25 = 5" using real_sqrt_abs[of 5] by simp
  then have c: "column_norm (decoder zero_column_model) 1 = 5"
    by (simp add: column_norm_def zero_column_model_def)
  have n: "1 < n_dirs zero_column_model" by (simp add: zero_column_model_def)
  from unit_norm_decoder_columns[OF zero_column_shapes] n c
  have "column_norm_opt (unit_norm_weight (decoder zero_column_model)) 1 = Some 1" by simp
  then show ?thesis using zero_column_shapes c by simp
qed

subsection \<open>The model loader\<close>

lemma float1_Some: "float1 t = Some v \<longleftrightarrow> t = Some (Float1 v)"
  by (cases t rule: float1.cases) auto

lemma float2_Some: "float2 t = Some w \<longleftrightarrow> t = Some (Float2 w)"
  by (cases t rule: float2.cases) auto

lemma long1_Some: "long1 t = Some v \<longleftrightarrow> t = Some (Long1 v)"
  by (cases t rule: long1.cases) auto

lemma strict_load_Inr:
  assumes "strict_load_state_dict model0 sd = Inr model"
  shows "\<exists>pb lb st ew dw.
     float1 (map_of sd ''pre_bias'') = Some pb \<and> float1 (map_of sd ''latent_bias'') = Some lb \<and>
     long1 (map_of sd ''stats_last_nonzero'') = Some st \<and>
     float2 (map_of sd ''encoder.weight'') = Some ew \<and>
     float2 (map_of sd ''decoder.weight'') = Some dw \<and>
     length pb = d_model model0 \<and> length lb = n_dirs model0 \<and> length st = n_dirs model0 \<and>
     shape_is ew (n_dirs model0) (d_model model0) \<and> shape_is dw (d_model model0) (n_dirs model0) \<and>
     model = model0\<lparr>encoder := ew, decoder := dw, pre_bias := pb, latent_bias := lb,
                      stats_last_nonzero := st\<rparr>"
  using assms unfolding strict_load_state_dict_def
  by (simp split: if_splits option.splits)

lemma strict_load_complete:
  assumes "strict_load_state_dict model0 sd = Inr model"
  shows "shapes_ok model \<and>
         map_of sd ''encoder.weight'' = Some (Float2 (encoder model)) \<and>
         map_of sd ''decoder.weight'' = Some (Float2 (decoder model)) \<and>
         map_of sd ''pre_bias'' = Some (Float1 (pre_bias model)) \<and>
         map_of sd ''latent_bias'' = Some (Float1 (latent_bias model)) \<and>
         map_of sd ''stats_last_nonzero'' = Some (Long1 (stats_last_nonzero model))"
proof -
  from strict_load_Inr[OF assms] obtain pb lb st ew dw where
    f: "float1 (map_of sd ''pre_bias'') = Some pb" "float1 (map_of sd ''latent_bias'') = Some lb"
       "long1 (map_of sd ''stats_last_nonzero'') = Some st"
       "float2 (map_of sd ''encoder.weight'') = Some ew"
       "float2 (map_of sd ''decoder.weight'') = Some dw"
    and sh: "length pb = d_model model0" "length lb = n_dirs model0" "length st = n_dirs model0"
       "shape_is ew (n_dirs model0) (d_model model0)" "shape_is dw (d_model model0) (n_dirs model0)"
    and m: "model = model0\<lparr>encoder := ew, decoder := dw, pre_bias := pb, latent_bias := lb,
                      stats_last_nonzero := st\<rparr>"
    by blast
  have "shapes_ok model" using sh by (simp add: m shapes_ok_def shape_is_def)
  then show ?thesis
    using f by (simp add: m float1_Some float2_Some long1_Some)
qed

lemma strict_load_mismatch:
  assumes "map_of sd ''encoder.weight'' = Some (Float2 ew)"
    and "\<not> shape_is ew (n_dirs model0) (d_model model0)"
  shows "\<exists>e. strict_load_state_dict model0 sd = Inl e"
proof (cases "strict_load_state_dict model0 sd")
  case (Inl e)
  then show ?thesis by blast
next
  case (Inr model)
  from strict_load_Inr[OF this] assms show ?thesis by auto
qed

lemma init_shapes:
  assumes "FastAutoencoder_init env nd dm kk ak mk thr = Inr model0"
    and "\<forall>inp out. shape_is (linear_init env inp out) out inp"
  shows "shapes_ok model0 \<and> n_dirs model0 = nat nd \<and> d_model model0 = nat dm"
  using assms by (auto simp: FastAutoencoder_init_def shapes_ok_def shape_is_def split: if_splits)

text \<open>
  C8. Whatever torch does, \<^verbatim>\<open>load_sae_model\<close> returns \<^verbatim>\<open>None\<close> and prints
  \<^verbatim>\<open>Error loading SAE model: \<close> followed by the message of the exception when the
  constructor, \<^verbatim>\<open>torch.load\<close> (missing or unreadable file) or \<^verbatim>\<open>load_state_dict\<close> raises;
  it returns a model only when all three succeeded, and that model is the one
  \<^verbatim>\<open>load_state_dict\<close> has filled. With the strict loader of torch, a stored encoder weight
  whose shape is not \<open>n_dirs \<times> d_model\<close> for the declared hyperparameters gives \<^verbatim>\<open>None\<close>,
  and a returned model has its constructed shapes and holds the five stored tensors.
\<close>

theorem load_sae_model_reports:
  "(\<forall>e. FastAutoencoder_init env n f kk ak (Some 128) 266 = Inl e \<longrightarrow>
        load_sae_model env path n f kk ak = ([''Error loading SAE model: '' @ str e], None)) \<and>
   (\<forall>model0 e. FastAutoencoder_init env n f kk ak (Some 128) 266 = Inr model0 \<and>
        torch_load env path = Inl e \<longrightarrow>
        load_sae_model env path n f kk ak = ([''Error loading SAE model: '' @ str e], None)) \<and>
   (\<forall>model0 sd e. FastAutoencoder_init env n f kk ak (Some 128) 266 = Inr model0 \<and>
        torch_load env path = Inr sd \<and> load_state_dict env model0 sd = Inl e \<longrightarrow>
        load_sae_model env path n f kk ak = ([''Error loading SAE model: '' @ str e], None)) \<and>
   (\<forall>model. snd (load_sae_model env path n f kk ak) = Some model \<longrightarrow>
        (\<exists>model0 sd. FastAutoencoder_init env n f kk ak (Some 128) 266 = Inr model0 \<and>
            torch_load env path = Inr sd \<and> load_state_dict env model0 sd = Inr model)) \<and>
   (snd (load_sae_model env path n f kk ak) = None \<longrightarrow>
        (\<exists>e. fst (load_sae_model env path n f kk ak) = [''Error loading SAE model: '' @ str e])) \<and>
   (load_state_dict env = strict_load_state_dict \<and>
    (\<forall>inp out. shape_is (linear_init env inp out) out inp) \<longrightarrow>
      (\<forall>sd ew. torch_load env path = Inr sd \<and> map_of sd ''encoder.weight'' = Some (Float2 ew) \<and>
          \<not> shape_is ew (nat n) (nat f) \<longrightarrow>
          snd (load_sae_model env path n f kk ak) = None) \<and>
      (\<forall>model. snd (load_sae_model env path n f kk ak) = Some model \<longrightarrow>
          shapes_ok model \<and>
          (\<exists>sd. torch_load env path = Inr sd \<and>
             map_of sd ''encoder.weight'' = Some (Float2 (encoder model)) \<and>
             map_of sd ''decoder.weight'' = Some (Float2 (decoder model)) \<and>
             map_of sd ''pre_bias'' = Some (Float1 (pre_bias model)) \<and>
             map_of sd ''latent_bias'' = Some (Float1 (latent_bias model)) \<and>
             map_of sd ''stats_last_nonzero'' = Some (Long1 (stats_last_nonzero model)))))"
proof -
  let ?init = "FastAutoencoder_init env n f kk ak (Some 128) 266"
  let ?res = "load_sae_model env path n f kk ak"
  have c1: "\<forall>e. ?init = Inl e \<longrightarrow> ?res = ([''Error loading SAE model: '' @ str e], None)"
    by (simp add: load_sae_model_def)
  have c2: "\<forall>model0 e. ?init = Inr model0 \<and> torch_load env path = Inl e \<longrightarrow>
        ?res = ([''Error loading SAE model: '' @ str e], None)"
    by (simp add: load_sae_model_def)
  have c3: "\<forall>model0 sd e. ?init = Inr model0 \<and> torch_load env path = Inr sd \<and>
        load_state_dict env model0 sd = Inl e \<longrightarrow>
        ?res = ([''Error loading SAE model: '' @ str e], None)"
    by (simp add: load_sae_model_def)
  have c4: "\<forall>model. snd ?res = Some model \<longrightarrow>
        (\<exists>model0 sd. ?init = Inr model0 \<and> torch_load env path = Inr sd \<and>
            load_state_dict env model0 sd = Inr model)"
    by (auto simp: load_sae_model_def split: sum.splits)
  have c5: "snd ?res = None \<longrightarrow> (\<exists>e. fst ?res = [''Error loading SAE model: '' @ str e])"
    by (auto simp: load_sae_model_def split: sum.splits)
  have c6: "snd ?res = None"
    if st: "load_state_dict env = strict_load_state_dict"
      and li: "\<forall>inp out. shape_is (linear_init env inp out) out inp"
      and sd: "torch_load env path = Inr sd" "map_of sd ''encoder.weight'' = Some (Float2 ew)"
        "\<not> shape_is ew (nat n) (nat f)" for sd ew
  proof (cases ?init)
    case (Inl e)
    then show ?thesis using c1 by simp
  next
    case (Inr model0)
    from init_shapes[OF Inr li] have "n_dirs model0 = nat n" "d_model model0 = nat f" by simp_all
    with sd(2,3) obtain e where "strict_load_state_dict model0 sd = Inl e"
      using strict_load_mismatch[of sd ew model0] by auto
    then have "load_state_dict env model0 sd = Inl e" using st by simp
    then show ?thesis using c3 Inr sd(1) by simp
  qed
  have c7: "shapes_ok model \<and>
          (\<exists>sd. torch_load env path = Inr sd \<and>
             map_of sd ''encoder.weight'' = Some (Float2 (encoder model)) \<and>
             map_of sd ''decoder.weight'' = Some (Float2 (decoder model)) \<and>
             map_of sd ''pre_bias'' = Some (Float1 (pre_bias model)) \<and>
             map_of sd ''latent_bias'' = Some (Float1 (latent_bias model)) \<and>
             map_of sd ''stats_last_nonzero'' = Some (Long1 (stats_last_nonzero model)))"
    if st: "load_state_dict env = strict_load_state_dict"
      and li: "\<forall>inp out. shape_is (linear_init env inp out) out inp"
      and r: "snd ?res = Some model" for model
  proof -
    from c4 r obtain model0 sd where i: "?init = Inr model0" and l: "torch_load env path = Inr sd"
      and s: "load_state_dict env model0 sd = Inr model" by blast
    have "strict_load_state_dict model0 sd = Inr model" using s st by simp
    from strict_load_complete[OF this] l show ?thesis by blast
  qed
  have c67: "load_state_dict env = strict_load_state_dict \<and>
    (\<forall>inp out. shape_is (linear_init env inp out) out inp) \<longrightarrow>
      (\<forall>sd ew. torch_load env path = Inr sd \<and> map_of sd ''encoder.weight'' = Some (Float2 ew) \<and>
          \<not> shape_is ew (nat n) (nat f) \<longrightarrow>
          snd ?res = None) \<and>
      (\<forall>model. snd ?res = Some model \<longrightarrow>
          shapes_ok model \<and>
          (\<exists>sd. torch_load env path = Inr sd \<and>
             map_of sd ''encoder.weight'' = Some (Float2 (encoder model)) \<and>
             map_of sd ''decoder.weight'' = Some (Float2 (decoder model)) \<and>
             map_of sd ''pre_bias'' = Some (Float1 (pre_bias model)) \<and>
             map_of sd ''latent_bias'' = Some (Float1 (latent_bias model)) \<and>
             map_of sd ''stats_last_nonzero'' = Some (Long1 (stats_last_nonzero model))))"
    using c6 c7 by (intro impI conjI allI; elim conjE) blast+
  show ?thesis by (intro conjI) (rule c1, rule c2, rule c3, rule c4, rule c5, rule c67)
qed

theorem load_sae_model_reports_witness:
  "load_state_dict example_env = strict_load_state_dict \<and>
   torch_load example_env ''sae.pt'' = Inr blob8 \<and>
   map_of blob8 ''encoder.weight'' = Some (Float2 [replicate 8 1, replicate 8 1]) \<and>
   \<not> shape_is [replicate 8 1, replicate 8 1] (nat 2) (nat 4) \<and>
   snd (load_sae_model example_env ''sae.pt'' 2 4 16 (Some 2)) = None \<and>
   snd (load_sae_model example_env ''missing.pt'' 2 4 16 (Some 2)) = None"
proof -
  have st: "load_state_dict example_env = strict_load_state_dict"
    by (simp add: example_env_def)
  have li: "\<forall>inp out. shape_is (linear_init example_env inp out) out inp"
    by (simp add: example_env_def shape_is_def list_all_iff)
  have tl: "torch_load example_env ''sae.pt'' = Inr blob8"
    by (simp add: example_env_def)
  have mo: "map_of blob8 ''encoder.weight'' = Some (Float2 [replicate 8 1, replicate 8 1])"
    by (simp add: blob8_def)
  have ns: "\<not> shape_is [replicate 8 1, replicate 8 1] (nat 2) (nat 4)"
    by (simp add: shape_is_def)
  have init: "FastAutoencoder_init example_env 2 4 16 (Some 2) (Some 128) 266 =
      Inr (projr (FastAutoencoder_init example_env 2 4 16 (Some 2) (Some 128) 266))"
    by (simp add: FastAutoencoder_init_def)
  have miss: "torch_load example_env ''missing.pt'' = Inl (FileNotFoundError ''No such file or directory'')"
    by (simp add: example_env_def)
  note t1 = load_sae_model_reports[of example_env 2 4 16 "Some 2" "''sae.pt''"]
  note t2 = load_sae_model_reports[of example_env 2 4 16 "Some 2" "''missing.pt''"]
  have a: "snd (load_sae_model example_env ''sae.pt'' 2 4 16 (Some 2)) = None"
    using t1 st li tl mo ns by blast
  have "load_sae_model example_env ''missing.pt'' 2 4 16 (Some 2) =
      ([''Error loading SAE model: '' @ str (FileNotFoundError ''No such file or directory'')], None)"
    using t2 init miss by blast
  then have b: "snd (load_sae_model example_env ''missing.pt'' 2 4 16 (Some 2)) = None" by simp
  show ?thesis by (intro conjI) (rule st, rule tl, rule mo, rule ns, rule a, rule b)
qed

end
